theory Spec2Isabelle
  imports Main "HOL-Library.Signed_Division"
begin

section \<open>Go runtime behaviour the simulator relies on\<close>

text \<open>
  Go's \<open>int\<close> is modelled as \<open>int\<close>: every counter and index of the simulator is bounded
  by the length of the trace, so 64-bit wrap-around is never reached. A run-time panic
  of the Go program is a value of type \<open>panic\<close>, returned on the left of a sum.
\<close>

datatype panic = IndexOutOfRange | NilDereference | DivideByZero | MakeSliceOutOfRange

text \<open>\<open>xs[k]\<close> as a read: Go panics when \<open>k\<close> is outside \<open>0 .. len(xs) - 1\<close>.\<close>

definition index_at :: "'a list \<Rightarrow> int \<Rightarrow> panic + 'a" where
  "index_at xs k =
     (if 0 \<le> k \<and> k < int (length xs) then Inr (xs ! nat k) else Inl IndexOutOfRange)"

text \<open>\<open>xs[k] = x\<close> as a write, with the same bounds check.\<close>

definition store_at :: "'a list \<Rightarrow> int \<Rightarrow> 'a \<Rightarrow> panic + 'a list" where
  "store_at xs k x =
     (if 0 \<le> k \<and> k < int (length xs) then Inr (xs[nat k := x]) else Inl IndexOutOfRange)"

text \<open>\<open>m[k]\<close> read from a map of slices: a missing key gives the nil (empty) slice.\<close>

definition map_slice :: "('k \<rightharpoonup> 'a list) \<Rightarrow> 'k \<Rightarrow> 'a list" where
  "map_slice m k = (case m k of None \<Rightarrow> [] | Some xs \<Rightarrow> xs)"

text \<open>\<open>a % b\<close>: Go truncates towards zero and panics on a zero divisor.\<close>

definition go_rem :: "int \<Rightarrow> int \<Rightarrow> panic + int" where
  "go_rem a b = (if b = 0 then Inl DivideByZero else Inr (a smod b))"

text \<open>
  \<open>sort.Search(n, f)\<close> of Go's standard library: the binary search
  \<^verbatim>\<open>i, j := 0, n; for i < j { h := int(uint(i+j) >> 1); if !f(h) { i = h + 1 } else { j = h } }; return i\<close>.
  \<open>sort.SearchInts(a, x)\<close> is \<open>sort.Search(len(a), func(i) { return a[i] >= x })\<close>; the
  probe \<open>h\<close> always lies in \<open>0 .. len(a) - 1\<close>, so the read \<open>a[h]\<close> cannot panic.
\<close>

function Search_loop :: "(int \<Rightarrow> bool) \<Rightarrow> int \<Rightarrow> int \<Rightarrow> int" where
  "Search_loop f i j =
     (if i < j then
        (if \<not> f ((i + j) div 2) then Search_loop f ((i + j) div 2 + 1) j
         else Search_loop f i ((i + j) div 2))
      else i)"
  by pat_completeness auto
termination
  by (relation "measure (\<lambda>(f, i, j). nat (j - i))") auto

declare Search_loop.simps [simp del]

definition Search :: "int \<Rightarrow> (int \<Rightarrow> bool) \<Rightarrow> int" where
  "Search n f = Search_loop f 0 n"

definition SearchInts :: "int list \<Rightarrow> int \<Rightarrow> int" where
  "SearchInts a x = Search (int (length a)) (\<lambda>i. a ! nat i \<ge> x)"

section \<open>Data model (main.go)\<close>

definition PAGE_SIZE :: int where
  "PAGE_SIZE = 4096"

record PageAccess =
  PageID :: string
  Type :: string

record PageFrame =
  PageID :: string
  Referenced :: bool
  LoadCount :: int

record Simulator =
  memorySize :: int
  totalFrames :: int
  accesses :: "PageAccess list"
  distinctPages :: "string \<rightharpoonup> bool"
  pageLoadCount :: "string \<rightharpoonup> int"
  didacticMode :: bool
  showLoadCount :: bool
  showPageTable :: bool
  skipOptimal :: bool

definition NewSimulator :: "int \<Rightarrow> Simulator" where
  "NewSimulator m =
     \<lparr>memorySize = m, totalFrames = m sdiv PAGE_SIZE, accesses = [],
      distinctPages = Map.empty, pageLoadCount = Map.empty, didacticMode = False,
      showLoadCount = False, showPageTable = False, skipOptimal = False\<rparr>"

text \<open>\<open>m[k]++\<close> on a Go map: a missing key reads as 0.\<close>

definition increment :: "(string \<rightharpoonup> int) \<Rightarrow> string \<Rightarrow> (string \<rightharpoonup> int)" where
  "increment m k = m(k \<mapsto> (case m k of None \<Rightarrow> 0 | Some c \<Rightarrow> c) + 1)"

section \<open>OptimalAlgorithm\<close>

text \<open>The local variables of \<open>OptimalAlgorithm\<close> that live across loop iterations.\<close>

record OPT =
  frames :: "string list"
  inMemory :: "string \<rightharpoonup> bool"
  pageFaults :: int

text \<open>
  The first loop: \<open>pageAccessPositions[access.PageID] = append(..., i)\<close> for every
  access, in trace order. The argument \<open>i\<close> is the index of the head of the list.
\<close>

fun pageAccessPositions ::
  "int \<Rightarrow> PageAccess list \<Rightarrow> (string \<rightharpoonup> int list) \<Rightarrow> (string \<rightharpoonup> int list)" where
  "pageAccessPositions i [] m = m"
| "pageAccessPositions i (access # rest) m =
     pageAccessPositions (i + 1) rest
       (m(PageAccess.PageID access \<mapsto> map_slice m (PageAccess.PageID access) @ [i]))"

text \<open>
  The victim search \<open>for frameIdx, pageInFrame := range frames\<close> of main.go. The list
  argument is the part of \<open>frames\<close> not yet visited, \<open>frameIdx\<close> the index of its head;
  \<open>farthest\<close> and \<open>victimIndex\<close> are the loop's two variables. A page with no later
  use ends the search at once (\<open>break\<close>).
\<close>

fun victim_search ::
  "(string \<rightharpoonup> int list) \<Rightarrow> int \<Rightarrow> int \<Rightarrow> string list \<Rightarrow> int \<Rightarrow> int \<Rightarrow> panic + int" where
  "victim_search positionsOf i frameIdx [] farthest victimIndex = Inr victimIndex"
| "victim_search positionsOf i frameIdx (pageInFrame # rest) farthest victimIndex =
     (let positions = map_slice positionsOf pageInFrame;
          nextUsePos = SearchInts positions (i + 1)
      in if nextUsePos = int (length positions) then Inr frameIdx
         else
           (case index_at positions nextUsePos of
              Inl e \<Rightarrow> Inl e
            | Inr nextUse \<Rightarrow>
                if nextUse > farthest
                then victim_search positionsOf i (frameIdx + 1) rest nextUse frameIdx
                else victim_search positionsOf i (frameIdx + 1) rest farthest victimIndex))"

text \<open>
  The same search as the second copy of the source writes it (unnamed/part_000): a page
  with no later use gets the next position \<open>len(s.accesses)\<close>, takes part in the
  comparison, and then ends the search.
\<close>

fun victim_search_alt ::
  "(string \<rightharpoonup> int list) \<Rightarrow> int \<Rightarrow> int \<Rightarrow> int \<Rightarrow> string list \<Rightarrow> int \<Rightarrow> int \<Rightarrow> panic + int" where
  "victim_search_alt nextUse n i frameIdx [] farthestNextUse victimFrame = Inr victimFrame"
| "victim_search_alt nextUse n i frameIdx (pageInFrame # rest) farthestNextUse victimFrame =
     (let positions = map_slice nextUse pageInFrame;
          searchIndex = SearchInts positions (i + 1)
      in case (if searchIndex = int (length positions) then Inr n
               else index_at positions searchIndex) of
           Inl e \<Rightarrow> Inl e
         | Inr nextPos \<Rightarrow>
             (let farthestNextUse' = (if nextPos > farthestNextUse then nextPos else farthestNextUse);
                  victimFrame' = (if nextPos > farthestNextUse then frameIdx else victimFrame)
              in if nextPos = n then Inr victimFrame'
                 else victim_search_alt nextUse n i (frameIdx + 1) rest farthestNextUse' victimFrame'))"

text \<open>
  One iteration of the main loop, for the access at index \<open>i\<close>. The simulator is
  threaded through because the iteration writes \<open>s.pageLoadCount\<close> and reads
  \<open>s.totalFrames\<close>.
\<close>

definition OptimalAlgorithm_access ::
  "(string \<rightharpoonup> int list) \<Rightarrow> int \<Rightarrow> PageAccess \<Rightarrow> OPT \<times> Simulator \<Rightarrow> panic + OPT \<times> Simulator" where
  "OptimalAlgorithm_access positionsOf i access = (\<lambda>(v, s).
     let pageID = PageAccess.PageID access in
     case OPT.inMemory v pageID of
       Some found \<Rightarrow> Inr (v, s)
     | None \<Rightarrow>
         (let v1 = v\<lparr>OPT.pageFaults := OPT.pageFaults v + 1\<rparr>;
              s1 = s\<lparr>pageLoadCount := increment (pageLoadCount s) pageID\<rparr>
          in if int (length (OPT.frames v1)) < totalFrames s1 then
               Inr (v1\<lparr>OPT.frames := OPT.frames v1 @ [pageID],
                       OPT.inMemory := (OPT.inMemory v1)(pageID \<mapsto> True)\<rparr>, s1)
             else
               (case victim_search positionsOf i 0 (OPT.frames v1) (- 1) (- 1) of
                  Inl e \<Rightarrow> Inl e
                | Inr victimIndex \<Rightarrow>
                    (case index_at (OPT.frames v1) victimIndex of
                       Inl e \<Rightarrow> Inl e
                     | Inr victim \<Rightarrow>
                         Inr (v1\<lparr>OPT.frames := (OPT.frames v1)[nat victimIndex := pageID],
                                 OPT.inMemory :=
                                   ((OPT.inMemory v1)(victim := None))(pageID \<mapsto> True)\<rparr>,
                              s1)))))"

text \<open>The main loop \<open>for i, access := range s.accesses\<close>; a panic ends it.\<close>

fun OptimalAlgorithm_loop ::
  "(string \<rightharpoonup> int list) \<Rightarrow> int \<Rightarrow> PageAccess list \<Rightarrow> OPT \<times> Simulator \<Rightarrow> panic + OPT \<times> Simulator" where
  "OptimalAlgorithm_loop positionsOf i [] st = Inr st"
| "OptimalAlgorithm_loop positionsOf i (access # rest) st =
     (case OptimalAlgorithm_access positionsOf i access st of
        Inl e \<Rightarrow> Inl e
      | Inr st' \<Rightarrow> OptimalAlgorithm_loop positionsOf (i + 1) rest st')"

text \<open>
  The local variables before the first access, with \<open>s.pageLoadCount\<close> reset.
  \<open>make([]string, 0, s.totalFrames)\<close> panics on a negative capacity.
\<close>

definition OptimalAlgorithm_init :: "Simulator \<Rightarrow> OPT \<times> Simulator" where
  "OptimalAlgorithm_init s =
     (\<lparr>OPT.frames = [], OPT.inMemory = Map.empty, OPT.pageFaults = 0\<rparr>,
      s\<lparr>pageLoadCount := Map.empty\<rparr>)"

definition OptimalAlgorithm_run :: "Simulator \<Rightarrow> panic + OPT \<times> Simulator" where
  "OptimalAlgorithm_run s =
     (if totalFrames s < 0 then Inl MakeSliceOutOfRange
      else OptimalAlgorithm_loop (pageAccessPositions 0 (accesses s) Map.empty) 0 (accesses s)
             (OptimalAlgorithm_init s))"

text \<open>\<open>OptimalAlgorithm\<close> returns \<open>pageFaults\<close> and leaves the simulator updated.\<close>

definition OptimalAlgorithm :: "Simulator \<Rightarrow> panic + int \<times> Simulator" where
  "OptimalAlgorithm s =
     (case OptimalAlgorithm_run s of
        Inl e \<Rightarrow> Inl e
      | Inr (v, s') \<Rightarrow> Inr (OPT.pageFaults v, s'))"

section \<open>ClockAlgorithm\<close>

record Clock =
  frames :: "PageFrame option list"
  pageToFrame :: "string \<rightharpoonup> int"
  clockPointer :: int
  pageFaults :: int

text \<open>\<open>for j := 0; j < s.totalFrames; j++ { if frames[j] == nil { emptyFrame = j; break } }\<close>\<close>

function emptyFrame_search :: "PageFrame option list \<Rightarrow> int \<Rightarrow> int \<Rightarrow> panic + int" where
  "emptyFrame_search fs nframes j =
     (if j < nframes then
        (case index_at fs j of
           Inl e \<Rightarrow> Inl e
         | Inr None \<Rightarrow> Inr j
         | Inr (Some fr) \<Rightarrow> emptyFrame_search fs nframes (j + 1))
      else Inr (- 1))"
  by pat_completeness auto
termination
  by (relation "measure (\<lambda>(fs, nframes, j). nat (nframes - j))") auto

declare emptyFrame_search.simps [simp del]

definition is_referenced :: "PageFrame option \<Rightarrow> bool" where
  "is_referenced f = (case f of None \<Rightarrow> False | Some fr \<Rightarrow> Referenced fr)"

text \<open>
  The victim loop \<open>for { ... }\<close>: a frame that is not referenced is replaced and the
  pointer moves past it; a referenced frame loses its bit and the pointer moves on.
  Reading \<open>frames[clockPointer]\<close> panics outside the slice, and reading a field of a nil
  frame panics too, so the function is total: each further round has one referenced
  frame fewer.
\<close>

function victim_loop :: "int \<Rightarrow> string \<Rightarrow> Clock \<Rightarrow> panic + Clock" where
  "victim_loop nframes pageID v =
     (case index_at (Clock.frames v) (clockPointer v) of
        Inl e \<Rightarrow> Inl e
      | Inr None \<Rightarrow> Inl NilDereference
      | Inr (Some fr) \<Rightarrow>
          if \<not> Referenced fr then
            (case go_rem (clockPointer v + 1) nframes of
               Inl e \<Rightarrow> Inl e
             | Inr next \<Rightarrow>
                 Inr (v\<lparr>Clock.frames := (Clock.frames v)[nat (clockPointer v) :=
                                            Some \<lparr>PageID = pageID, Referenced = True, LoadCount = 1\<rparr>],
                        pageToFrame := ((pageToFrame v)(PageFrame.PageID fr := None))
                                          (pageID \<mapsto> clockPointer v),
                        clockPointer := next\<rparr>))
          else
            (case go_rem (clockPointer v + 1) nframes of
               Inl e \<Rightarrow> Inl e
             | Inr next \<Rightarrow>
                 victim_loop nframes pageID
                   (v\<lparr>Clock.frames := (Clock.frames v)[nat (clockPointer v) :=
                                          Some (fr\<lparr>Referenced := False\<rparr>)],
                      clockPointer := next\<rparr>)))"
  by pat_completeness auto
termination
proof (relation "measure (\<lambda>(nframes, pageID, v). length (filter is_referenced (Clock.frames v)))")
  show "wf (measure (\<lambda>(nframes, pageID, v). length (filter is_referenced (Clock.frames v))))"
    by simp
next
  fix nframes :: int and pageID :: string and v :: Clock and x2 x2a fr x2b
  assume ix: "index_at (Clock.frames v) (clockPointer v) = Inr x2"
    and x2: "x2 = Some fr" and ref: "\<not> \<not> Referenced fr"
  have dec: "length (filter P (xs[k := y])) < length (filter P xs)"
    if "k < length xs" "P (xs ! k)" "\<not> P y" for P :: "'b \<Rightarrow> bool" and xs k y
    using that
  proof (induction xs arbitrary: k)
    case Nil
    then show ?case by simp
  next
    case (Cons a xs)
    then show ?case by (cases k) (auto simp: Suc_le_eq)
  qed
  from ix x2 have rng: "nat (clockPointer v) < length (Clock.frames v)"
    and at: "Clock.frames v ! nat (clockPointer v) = Some fr"
    by (auto simp: index_at_def split: if_splits)
  have "length (filter is_referenced ((Clock.frames v)[nat (clockPointer v) := Some (fr\<lparr>Referenced := False\<rparr>)]))
        < length (filter is_referenced (Clock.frames v))"
    using rng at ref by (intro dec) (simp_all add: is_referenced_def)
  then show "((nframes, pageID,
        v\<lparr>Clock.frames := (Clock.frames v)[nat (clockPointer v) := Some (fr\<lparr>Referenced := False\<rparr>)],
          clockPointer := x2b\<rparr>),
       nframes, pageID, v)
      \<in> measure (\<lambda>(nframes, pageID, v). length (filter is_referenced (Clock.frames v)))"
    by simp
qed

declare victim_loop.simps [simp del]

text \<open>One iteration of the main loop of \<open>ClockAlgorithm\<close>.\<close>

definition ClockAlgorithm_access :: "PageAccess \<Rightarrow> Clock \<times> Simulator \<Rightarrow> panic + Clock \<times> Simulator" where
  "ClockAlgorithm_access access = (\<lambda>(v, s).
     let pageID = PageAccess.PageID access in
     case pageToFrame v pageID of
       Some frameIndex \<Rightarrow>
         (case index_at (Clock.frames v) frameIndex of
            Inl e \<Rightarrow> Inl e
          | Inr None \<Rightarrow> Inl NilDereference
          | Inr (Some fr) \<Rightarrow>
              Inr (v\<lparr>Clock.frames := (Clock.frames v)[nat frameIndex :=
                                         Some (fr\<lparr>Referenced := True\<rparr>)]\<rparr>, s))
     | None \<Rightarrow>
         (let v1 = v\<lparr>Clock.pageFaults := Clock.pageFaults v + 1\<rparr>;
              s1 = s\<lparr>pageLoadCount := increment (pageLoadCount s) pageID\<rparr>
          in case emptyFrame_search (Clock.frames v1) (totalFrames s1) 0 of
               Inl e \<Rightarrow> Inl e
             | Inr emptyFrame \<Rightarrow>
                 if emptyFrame \<noteq> - 1 then
                   (case store_at (Clock.frames v1) emptyFrame
                           (Some \<lparr>PageID = pageID, Referenced = True, LoadCount = 1\<rparr>) of
                      Inl e \<Rightarrow> Inl e
                    | Inr fs \<Rightarrow>
                        Inr (v1\<lparr>Clock.frames := fs,
                                pageToFrame := (pageToFrame v1)(pageID \<mapsto> emptyFrame)\<rparr>, s1))
                 else
                   (case victim_loop (totalFrames s1) pageID v1 of
                      Inl e \<Rightarrow> Inl e
                    | Inr v2 \<Rightarrow> Inr (v2, s1))))"

fun ClockAlgorithm_loop :: "PageAccess list \<Rightarrow> Clock \<times> Simulator \<Rightarrow> panic + Clock \<times> Simulator" where
  "ClockAlgorithm_loop [] st = Inr st"
| "ClockAlgorithm_loop (access # rest) st =
     (case ClockAlgorithm_access access st of
        Inl e \<Rightarrow> Inl e
      | Inr st' \<Rightarrow> ClockAlgorithm_loop rest st')"

definition ClockAlgorithm_init :: "Simulator \<Rightarrow> Clock \<times> Simulator" where
  "ClockAlgorithm_init s =
     (\<lparr>Clock.frames = replicate (nat (totalFrames s)) None, pageToFrame = Map.empty,
       clockPointer = 0, Clock.pageFaults = 0\<rparr>,
      s\<lparr>pageLoadCount := Map.empty\<rparr>)"

definition ClockAlgorithm_run :: "Simulator \<Rightarrow> panic + Clock \<times> Simulator" where
  "ClockAlgorithm_run s =
     (if totalFrames s < 0 then Inl MakeSliceOutOfRange
      else ClockAlgorithm_loop (accesses s) (ClockAlgorithm_init s))"

definition ClockAlgorithm :: "Simulator \<Rightarrow> panic + int \<times> Simulator" where
  "ClockAlgorithm s =
     (case ClockAlgorithm_run s of
        Inl e \<Rightarrow> Inl e
      | Inr (v, s') \<Rightarrow> Inr (Clock.pageFaults v, s'))"

section \<open>Run and main\<close>

text \<open>
  What \<open>Run\<close> prints, without the formatting: either the insufficient-memory error, or
  the two fault counts (\<open>- 1\<close> for a skipped optimal run) and, when \<open>-loadcount\<close> is
  set, the load counts that \<open>ShowLoadCount\<close> reads from \<open>s.pageLoadCount\<close> at that
  moment.
\<close>

datatype outcome =
  InsufficientMemory
| Report int int "(string \<rightharpoonup> int) option"

definition ShowLoadCount :: "Simulator \<Rightarrow> (string \<rightharpoonup> int) option" where
  "ShowLoadCount s = (if \<not> showLoadCount s then None else Some (pageLoadCount s))"

definition Run :: "Simulator \<Rightarrow> panic + outcome \<times> Simulator" where
  "Run s =
     (if totalFrames s = 0 then Inr (InsufficientMemory, s)
      else
        (case (if \<not> skipOptimal s then OptimalAlgorithm s else Inr (- 1, s)) of
           Inl e \<Rightarrow> Inl e
         | Inr (optimalFaults, s1) \<Rightarrow>
             (case ClockAlgorithm s1 of
                Inl e \<Rightarrow> Inl e
              | Inr (clockFaults, s2) \<Rightarrow>
                  Inr (Report optimalFaults clockFaults (ShowLoadCount s2), s2))))"

text \<open>
  \<open>LoadAccessFile\<close> after the lines have been split: \<open>ids\<close> are the page ids taken from
  the non-blank lines, in order. An id is kept when it has at least two characters and
  starts with \<open>I\<close> or \<open>D\<close>; a file with no valid id is an error.
\<close>

definition valid_pageID :: "string \<Rightarrow> bool" where
  "valid_pageID pageID =
     (length pageID \<ge> 2 \<and> (hd pageID = CHR ''I'' \<or> hd pageID = CHR ''D''))"

fun LoadAccessFile_lines :: "string list \<Rightarrow> Simulator \<Rightarrow> Simulator" where
  "LoadAccessFile_lines [] s = s"
| "LoadAccessFile_lines (pageID # rest) s =
     LoadAccessFile_lines rest
       (if valid_pageID pageID then
          s\<lparr>accesses := accesses s @ [\<lparr>PageAccess.PageID = pageID, Type = [hd pageID]\<rparr>],
            distinctPages := (distinctPages s)(pageID \<mapsto> True)\<rparr>
        else s)"

definition LoadAccessFile :: "string list \<Rightarrow> Simulator \<Rightarrow> Simulator option" where
  "LoadAccessFile ids s =
     (let s' = LoadAccessFile_lines ids s
      in if length (accesses s') = 0 then None else Some s')"

fun apply_option :: "Simulator \<Rightarrow> string \<Rightarrow> Simulator" where
  "apply_option s opt =
     (if opt = ''-all'' then s\<lparr>didacticMode := True, showLoadCount := True, showPageTable := True\<rparr>
      else if opt = ''-didactic'' then s\<lparr>didacticMode := True\<rparr>
      else if opt = ''-loadcount'' then s\<lparr>showLoadCount := True\<rparr>
      else if opt = ''-pagetable'' then s\<lparr>showPageTable := True\<rparr>
      else if opt = ''-skipoptimal'' then s\<lparr>skipOptimal := True\<rparr>
      else s)"

datatype exit =
  InvalidMemorySize | MemoryTooSmall | LoadFailed | Panicked panic | Finished outcome

text \<open>
  \<open>main\<close> with at least two arguments: \<open>parsed\<close> is the result of
  \<open>strconv.Atoi(os.Args[2])\<close>, \<open>opts\<close> the remaining arguments, \<open>ids\<close> the page ids of
  the input file.
\<close>

definition main :: "int option \<Rightarrow> string list \<Rightarrow> string list \<Rightarrow> exit" where
  "main parsed opts ids =
     (case parsed of
        None \<Rightarrow> InvalidMemorySize
      | Some m \<Rightarrow>
          if m < PAGE_SIZE then MemoryTooSmall
          else
            (case LoadAccessFile ids (foldl apply_option (NewSimulator m) opts) of
               None \<Rightarrow> LoadFailed
             | Some simulator \<Rightarrow>
                 (case Run simulator of
                    Inl e \<Rightarrow> Panicked e
                  | Inr (out, s') \<Rightarrow> Finished out)))"

section \<open>Notions used to state the properties\<close>

text \<open>What a policy run reports: the fault count and the load counter it leaves.\<close>

definition measurement :: "panic + int \<times> Simulator \<Rightarrow> panic + int \<times> (string \<rightharpoonup> int)" where
  "measurement r = (case r of Inl e \<Rightarrow> Inl e | Inr (n, s) \<Rightarrow> Inr (n, pageLoadCount s))"

text \<open>Two simulators agree on everything an iteration of either policy reads.\<close>

definition same_core :: "Simulator \<Rightarrow> Simulator \<Rightarrow> bool" where
  "same_core s t = (totalFrames s = totalFrames t \<and> pageLoadCount s = pageLoadCount t)"

text \<open>The trace as the sequence of page ids.\<close>

definition trace :: "Simulator \<Rightarrow> string list" where
  "trace s = map PageAccess.PageID (accesses s)"

text \<open>
  Page \<open>p\<close> occurs in the trace \<open>qs\<close> strictly after position \<open>k\<close>; and the position of
  its next occurrence after \<open>k\<close>, which is \<open>length qs\<close> (beyond the end of the trace)
  for a page that does not occur again.
\<close>

definition used_again :: "string list \<Rightarrow> nat \<Rightarrow> string \<Rightarrow> bool" where
  "used_again qs k p = (p \<in> set (drop (Suc k) qs))"

definition next_occurrence :: "string list \<Rightarrow> nat \<Rightarrow> string \<Rightarrow> nat" where
  "next_occurrence qs k p = Suc k + length (takeWhile (\<lambda>q. q \<noteq> p) (drop (Suc k) qs))"

text \<open>The positions, counted from \<open>i\<close>, at which page \<open>p\<close> occurs in a list of page ids.\<close>

fun occurrences :: "int \<Rightarrow> string list \<Rightarrow> string \<Rightarrow> int list" where
  "occurrences i [] p = []"
| "occurrences i (q # qs) p = (if q = p then [i] else []) @ occurrences (i + 1) qs p"

text \<open>
  Demand paging in general: \<open>paging F S qs n\<close> says that some replacement policy with
  \<open>F\<close> frames, starting with the resident set \<open>S\<close>, serves the requests \<open>qs\<close> with
  exactly \<open>n\<close> faults. A hit changes nothing; a fault loads the page and may evict any
  pages, as long as at most \<open>F\<close> pages are resident afterwards.
\<close>

inductive paging :: "nat \<Rightarrow> 'a set \<Rightarrow> 'a list \<Rightarrow> nat \<Rightarrow> bool" for F :: nat where
  paging_Nil: "paging F S [] 0"
| paging_hit: "q \<in> S \<Longrightarrow> paging F S qs n \<Longrightarrow> paging F S (q # qs) n"
| paging_fault: "q \<notin> S \<Longrightarrow> q \<in> S' \<Longrightarrow> S' \<subseteq> insert q S \<Longrightarrow> finite S' \<Longrightarrow> card S' \<le> F \<Longrightarrow>
     paging F S' qs n \<Longrightarrow> paging F S (q # qs) (Suc n)"

text \<open>Page \<open>v\<close> is not requested before the first request of page \<open>e\<close>.\<close>

definition not_before :: "'a \<Rightarrow> 'a \<Rightarrow> 'a list \<Rightarrow> bool" where
  "not_before v e qs = (v \<notin> set (takeWhile (\<lambda>q. q \<noteq> e) qs))"

text \<open>
  The state of \<open>OptimalAlgorithm\<close> between two accesses: the frames hold distinct
  pages, \<open>inMemory\<close> has exactly these pages as keys, and no more than \<open>F\<close> frames are
  in use.
\<close>

definition OPT_inv :: "nat \<Rightarrow> OPT \<Rightarrow> bool" where
  "OPT_inv F v =
     (distinct (OPT.frames v) \<and> dom (OPT.inMemory v) = set (OPT.frames v) \<and>
      length (OPT.frames v) \<le> F)"

text \<open>The page id held by each frame of the clock policy, \<open>None\<close> for an empty frame.\<close>

definition frame_pages :: "PageFrame option list \<Rightarrow> string option list" where
  "frame_pages fs = map (map_option PageFrame.PageID) fs"

text \<open>
  The state of \<open>ClockAlgorithm\<close> between two accesses: there are \<open>F\<close> frames, the
  clock pointer is the index of one of them, and \<open>pageToFrame\<close> maps a page to an
  index exactly when the frame at that index holds the page.
\<close>

definition Clock_inv :: "nat \<Rightarrow> Clock \<Rightarrow> bool" where
  "Clock_inv F v =
     (length (Clock.frames v) = F \<and> 0 \<le> clockPointer v \<and> clockPointer v < int F \<and>
      (\<forall>p k. pageToFrame v p = Some k \<longleftrightarrow>
         (0 \<le> k \<and> k < int F \<and> frame_pages (Clock.frames v) ! nat k = Some p)))"

text \<open>A frame after its second chance: the page stays, the referenced bit is cleared.\<close>

definition second_chance :: "PageFrame option \<Rightarrow> PageFrame option" where
  "second_chance f = map_option (\<lambda>fr. fr\<lparr>Referenced := False\<rparr>) f"

text \<open>The fault count of a run, \<open>None\<close> when the run panicked.\<close>

definition faults_of :: "panic + int \<times> Simulator \<Rightarrow> int option" where
  "faults_of r = (case r of Inl e \<Rightarrow> None | Inr (n, s) \<Rightarrow> Some n)"

text \<open>
  A simulator as \<open>main\<close> builds it: \<open>NewSimulator\<close> for a memory size, then the page ids
  of the input file. The example trace below has three pages for two frames.
\<close>

definition loaded :: "int \<Rightarrow> string list \<Rightarrow> Simulator" where
  "loaded m ids = LoadAccessFile_lines ids (NewSimulator m)"

definition small_example :: Simulator where
  "small_example = loaded 8192 [''I0'', ''D1'', ''I2'', ''I0'']"

text \<open>
  The state of the optimal run on the example trace when its third access (page I2)
  faults: both frames are in use.
\<close>

definition small_example_full :: OPT where
  "small_example_full =
     \<lparr>OPT.frames = [''I0'', ''D1''], OPT.inMemory = [''I0'' \<mapsto> True, ''D1'' \<mapsto> True],
      OPT.pageFaults = 2\<rparr>"

text \<open>
  The classic trace of Belady's anomaly (pages 1 2 3 4 1 2 5 1 2 3 4 5), as page ids of
  an input file.
\<close>

definition anomaly_trace :: "string list" where
  "anomaly_trace =
     [''I1'', ''I2'', ''I3'', ''I4'', ''I1'', ''I2'', ''I5'', ''I1'', ''I2'', ''I3'', ''I4'', ''I5'']"

text \<open>The sum of all load counts of a load counter.\<close>

definition total_loads :: "(string \<rightharpoonup> int) \<Rightarrow> int" where
  "total_loads m = (\<Sum>p\<in>dom m. the (m p))"

text \<open>
  The state of a policy run just before the access at index \<open>k\<close>: the main loop run
  on the first \<open>k\<close> accesses. And the condition under which the access \<open>a\<close> evicts a
  page in that state: the page is not resident and no frame is free.
\<close>

definition OptimalAlgorithm_before :: "Simulator \<Rightarrow> nat \<Rightarrow> panic + OPT \<times> Simulator" where
  "OptimalAlgorithm_before s k =
     OptimalAlgorithm_loop (pageAccessPositions 0 (accesses s) Map.empty) 0
       (take k (accesses s)) (OptimalAlgorithm_init s)"

definition OptimalAlgorithm_evicts :: "OPT \<times> Simulator \<Rightarrow> PageAccess \<Rightarrow> bool" where
  "OptimalAlgorithm_evicts st a =
     (OPT.inMemory (fst st) (PageAccess.PageID a) = None \<and>
      \<not> int (length (OPT.frames (fst st))) < totalFrames (snd st))"

definition ClockAlgorithm_before :: "Simulator \<Rightarrow> nat \<Rightarrow> panic + Clock \<times> Simulator" where
  "ClockAlgorithm_before s k = ClockAlgorithm_loop (take k (accesses s)) (ClockAlgorithm_init s)"

definition ClockAlgorithm_evicts :: "Clock \<times> Simulator \<Rightarrow> PageAccess \<Rightarrow> bool" where
  "ClockAlgorithm_evicts st a =
     (pageToFrame (fst st) (PageAccess.PageID a) = None \<and>
      emptyFrame_search (Clock.frames (fst st)) (totalFrames (snd st)) 0 = Inr (- 1))"

text \<open>
  The pages resident in the frames of each policy just before the access at index
  \<open>k\<close> (after the whole run when \<open>k\<close> is the length of the trace); \<open>None\<close> when
  the run has panicked by then.
\<close>

definition resident_pages :: "PageFrame option list \<Rightarrow> string set" where
  "resident_pages fs = set (List.map_filter (map_option PageFrame.PageID) fs)"

definition OptimalAlgorithm_resident :: "Simulator \<Rightarrow> nat \<Rightarrow> string set option" where
  "OptimalAlgorithm_resident s k =
     (case OptimalAlgorithm_before s k of
        Inl e \<Rightarrow> None
      | Inr st \<Rightarrow> Some (set (OPT.frames (fst st))))"

definition ClockAlgorithm_resident :: "Simulator \<Rightarrow> nat \<Rightarrow> string set option" where
  "ClockAlgorithm_resident s k =
     (case ClockAlgorithm_before s k of
        Inl e \<Rightarrow> None
      | Inr st \<Rightarrow> Some (resident_pages (Clock.frames (fst st))))"

text \<open>The example trace with four frames: more frames than distinct pages.\<close>

definition roomy_example :: Simulator where
  "roomy_example = loaded 16384 [''I0'', ''D1'', ''I2'', ''I0'']"

text \<open>
  The frames after the clock hand has passed \<open>d\<close> of them, starting at frame \<open>h\<close> and
  going round: each frame passed has had its second chance.
\<close>

fun sweep :: "nat \<Rightarrow> nat \<Rightarrow> PageFrame option list \<Rightarrow> PageFrame option list" where
  "sweep 0 h fs = fs"
| "sweep (Suc d) h fs = sweep d (Suc h mod length fs) (fs[h := second_chance (fs ! h)])"

text \<open>
  The victim loop of \<open>ClockAlgorithm\<close> cut off after \<open>n\<close> visited frames: \<open>None\<close> when
  the loop has not ended by then.
\<close>

fun victim_loop_bounded :: "nat \<Rightarrow> int \<Rightarrow> string \<Rightarrow> Clock \<Rightarrow> (panic + Clock) option" where
  "victim_loop_bounded 0 nframes pageID v = None"
| "victim_loop_bounded (Suc n) nframes pageID v =
     (case index_at (Clock.frames v) (clockPointer v) of
        Inl e \<Rightarrow> Some (Inl e)
      | Inr None \<Rightarrow> Some (Inl NilDereference)
      | Inr (Some fr) \<Rightarrow>
          if \<not> Referenced fr then
            (case go_rem (clockPointer v + 1) nframes of
               Inl e \<Rightarrow> Some (Inl e)
             | Inr next \<Rightarrow>
                 Some (Inr (v\<lparr>Clock.frames := (Clock.frames v)[nat (clockPointer v) :=
                                            Some \<lparr>PageID = pageID, Referenced = True, LoadCount = 1\<rparr>],
                              pageToFrame := ((pageToFrame v)(PageFrame.PageID fr := None))
                                                (pageID \<mapsto> clockPointer v),
                              clockPointer := next\<rparr>)))
          else
            (case go_rem (clockPointer v + 1) nframes of
               Inl e \<Rightarrow> Some (Inl e)
             | Inr next \<Rightarrow>
                 victim_loop_bounded n nframes pageID
                   (v\<lparr>Clock.frames := (Clock.frames v)[nat (clockPointer v) :=
                                          Some (fr\<lparr>Referenced := False\<rparr>)],
                      clockPointer := next\<rparr>)))"

declare victim_loop_bounded.simps [simp del]

text \<open>The example trace under the clock policy when its third access (page I2) faults.\<close>

definition small_example_clock_full :: Clock where
  "small_example_clock_full =
     \<lparr>Clock.frames = [Some \<lparr>PageID = ''I0'', Referenced = True, LoadCount = 1\<rparr>,
                      Some \<lparr>PageID = ''D1'', Referenced = True, LoadCount = 1\<rparr>],
      pageToFrame = [''I0'' \<mapsto> 0, ''D1'' \<mapsto> 1], clockPointer = 0, Clock.pageFaults = 2\<rparr>"

text \<open>The same run before its second access (page D1): the second frame is empty.\<close>

definition small_example_clock_free :: Clock where
  "small_example_clock_free =
     \<lparr>Clock.frames = [Some \<lparr>PageID = ''I0'', Referenced = True, LoadCount = 1\<rparr>, None],
      pageToFrame = [''I0'' \<mapsto> 0], clockPointer = 0, Clock.pageFaults = 1\<rparr>"

section \<open>Both policies read the trace and the frame count only\<close>

text \<open>
  An iteration changes nothing of the simulator but \<open>pageLoadCount\<close>, and what it does
  depends on the simulator only through \<open>totalFrames\<close> and \<open>pageLoadCount\<close>.
\<close>

lemma OptimalAlgorithm_access_frame:
  "OptimalAlgorithm_access pos i a (v, s) = Inr (v', s') \<Longrightarrow> s'\<lparr>pageLoadCount := x\<rparr> = s\<lparr>pageLoadCount := x\<rparr>"
  by (auto simp: OptimalAlgorithm_access_def Let_def split: option.splits sum.splits if_splits)

lemma OptimalAlgorithm_access_core:
  "same_core s t \<Longrightarrow>
   rel_sum (=) (\<lambda>(v', s') (w', t'). v' = w' \<and> same_core s' t')
     (OptimalAlgorithm_access pos i a (v, s)) (OptimalAlgorithm_access pos i a (v, t))"
  by (auto simp: OptimalAlgorithm_access_def Let_def same_core_def split: option.splits sum.splits)

lemma OptimalAlgorithm_loop_frame:
  "OptimalAlgorithm_loop pos i as (v, s) = Inr (v', s') \<Longrightarrow> s'\<lparr>pageLoadCount := x\<rparr> = s\<lparr>pageLoadCount := x\<rparr>"
proof (induction as arbitrary: i v s)
  case Nil
  then show ?case by simp
next
  case (Cons a as)
  from Cons.prems obtain v1 s1 where
    st: "OptimalAlgorithm_access pos i a (v, s) = Inr (v1, s1)"
    and lp: "OptimalAlgorithm_loop pos (i + 1) as (v1, s1) = Inr (v', s')"
    by (auto split: sum.splits)
  from OptimalAlgorithm_access_frame [OF st] Cons.IH [OF lp] show ?case by simp
qed

lemma OptimalAlgorithm_loop_core:
  "same_core s t \<Longrightarrow>
   rel_sum (=) (\<lambda>(v', s') (w', t'). v' = w' \<and> same_core s' t')
     (OptimalAlgorithm_loop pos i as (v, s)) (OptimalAlgorithm_loop pos i as (v, t))"
proof (induction as arbitrary: i v s t)
  case Nil
  then show ?case by simp
next
  case (Cons a as)
  from OptimalAlgorithm_access_core [OF Cons.prems, of pos i a v]
  consider (failed) e where "OptimalAlgorithm_access pos i a (v, s) = Inl e"
      "OptimalAlgorithm_access pos i a (v, t) = Inl e"
    | (stepped) v1 s1 t1 where "OptimalAlgorithm_access pos i a (v, s) = Inr (v1, s1)"
      "OptimalAlgorithm_access pos i a (v, t) = Inr (v1, t1)" "same_core s1 t1"
    by (auto simp: rel_sum.simps)
  then show ?case
  proof cases
    case failed
    then show ?thesis by simp
  next
    case stepped
    with Cons.IH [of s1 t1 "i + 1" v1] show ?thesis by simp
  qed
qed

lemma OptimalAlgorithm_same_trace:
  assumes "totalFrames s = totalFrames t" "accesses s = accesses t"
  shows "measurement (OptimalAlgorithm s) = measurement (OptimalAlgorithm t)"
proof -
  have "same_core (snd (OptimalAlgorithm_init s)) (snd (OptimalAlgorithm_init t))"
    using assms by (simp add: OptimalAlgorithm_init_def same_core_def)
  from OptimalAlgorithm_loop_core [OF this, of "pageAccessPositions 0 (accesses s) Map.empty" 0 "accesses s" "fst (OptimalAlgorithm_init s)"]
  have "rel_sum (=) (\<lambda>(v', s') (w', t'). v' = w' \<and> same_core s' t')
     (OptimalAlgorithm_run s) (OptimalAlgorithm_run t)"
    using assms by (simp add: OptimalAlgorithm_run_def OptimalAlgorithm_init_def)
  then show ?thesis
    by (auto simp: rel_sum.simps measurement_def OptimalAlgorithm_def same_core_def)
qed

lemma OptimalAlgorithm_frame:
  assumes "OptimalAlgorithm s = Inr (n, s')"
  shows "s'\<lparr>pageLoadCount := x\<rparr> = s\<lparr>pageLoadCount := x\<rparr>"
proof -
  from assms obtain v where "OptimalAlgorithm_run s = Inr (v, s')"
    by (auto simp: OptimalAlgorithm_def split: sum.splits)
  then have "OptimalAlgorithm_loop (pageAccessPositions 0 (accesses s) Map.empty) 0 (accesses s)
      (fst (OptimalAlgorithm_init s), snd (OptimalAlgorithm_init s)) = Inr (v, s')"
    by (simp add: OptimalAlgorithm_run_def split: if_splits)
  from OptimalAlgorithm_loop_frame [OF this] show ?thesis
    by (simp add: OptimalAlgorithm_init_def)
qed

lemma ClockAlgorithm_access_frame:
  "ClockAlgorithm_access a (v, s) = Inr (v', s') \<Longrightarrow> s'\<lparr>pageLoadCount := x\<rparr> = s\<lparr>pageLoadCount := x\<rparr>"
  by (auto simp: ClockAlgorithm_access_def Let_def split: option.splits sum.splits if_splits)

lemma ClockAlgorithm_access_core:
  "same_core s t \<Longrightarrow>
   rel_sum (=) (\<lambda>(v', s') (w', t'). v' = w' \<and> same_core s' t')
     (ClockAlgorithm_access a (v, s)) (ClockAlgorithm_access a (v, t))"
  by (auto simp: ClockAlgorithm_access_def Let_def same_core_def split: option.splits sum.splits)

lemma ClockAlgorithm_loop_frame:
  "ClockAlgorithm_loop as (v, s) = Inr (v', s') \<Longrightarrow> s'\<lparr>pageLoadCount := x\<rparr> = s\<lparr>pageLoadCount := x\<rparr>"
proof (induction as arbitrary: v s)
  case Nil
  then show ?case by simp
next
  case (Cons a as)
  from Cons.prems obtain v1 s1 where
    st: "ClockAlgorithm_access a (v, s) = Inr (v1, s1)"
    and lp: "ClockAlgorithm_loop as (v1, s1) = Inr (v', s')"
    by (auto split: sum.splits)
  from ClockAlgorithm_access_frame [OF st] Cons.IH [OF lp] show ?case by simp
qed

lemma ClockAlgorithm_loop_core:
  "same_core s t \<Longrightarrow>
   rel_sum (=) (\<lambda>(v', s') (w', t'). v' = w' \<and> same_core s' t')
     (ClockAlgorithm_loop as (v, s)) (ClockAlgorithm_loop as (v, t))"
proof (induction as arbitrary: v s t)
  case Nil
  then show ?case by simp
next
  case (Cons a as)
  from ClockAlgorithm_access_core [OF Cons.prems, of a v]
  consider (failed) e where "ClockAlgorithm_access a (v, s) = Inl e"
      "ClockAlgorithm_access a (v, t) = Inl e"
    | (stepped) v1 s1 t1 where "ClockAlgorithm_access a (v, s) = Inr (v1, s1)"
      "ClockAlgorithm_access a (v, t) = Inr (v1, t1)" "same_core s1 t1"
    by (auto simp: rel_sum.simps)
  then show ?case
  proof cases
    case failed
    then show ?thesis by simp
  next
    case stepped
    with Cons.IH [of s1 t1 v1] show ?thesis by simp
  qed
qed

lemma ClockAlgorithm_same_trace:
  assumes "totalFrames s = totalFrames t" "accesses s = accesses t"
  shows "measurement (ClockAlgorithm s) = measurement (ClockAlgorithm t)"
proof -
  have "same_core (snd (ClockAlgorithm_init s)) (snd (ClockAlgorithm_init t))"
    using assms by (simp add: ClockAlgorithm_init_def same_core_def)
  from ClockAlgorithm_loop_core [OF this, of "accesses s" "fst (ClockAlgorithm_init s)"]
  have "rel_sum (=) (\<lambda>(v', s') (w', t'). v' = w' \<and> same_core s' t')
     (ClockAlgorithm_run s) (ClockAlgorithm_run t)"
    using assms by (simp add: ClockAlgorithm_run_def ClockAlgorithm_init_def)
  then show ?thesis
    by (auto simp: rel_sum.simps measurement_def ClockAlgorithm_def same_core_def)
qed

lemma ClockAlgorithm_frame:
  assumes "ClockAlgorithm s = Inr (n, s')"
  shows "s'\<lparr>pageLoadCount := x\<rparr> = s\<lparr>pageLoadCount := x\<rparr>"
proof -
  from assms obtain v where "ClockAlgorithm_run s = Inr (v, s')"
    by (auto simp: ClockAlgorithm_def split: sum.splits)
  then have "ClockAlgorithm_loop (accesses s)
      (fst (ClockAlgorithm_init s), snd (ClockAlgorithm_init s)) = Inr (v, s')"
    by (simp add: ClockAlgorithm_run_def split: if_splits)
  from ClockAlgorithm_loop_frame [OF this] show ?thesis
    by (simp add: ClockAlgorithm_init_def)
qed

lemma frame_fields:
  assumes "\<And>x. s'\<lparr>pageLoadCount := x\<rparr> = s\<lparr>pageLoadCount := x\<rparr>"
  shows "totalFrames s' = totalFrames s" and "accesses s' = accesses s"
    and "skipOptimal s' = skipOptimal s" and "showLoadCount s' = showLoadCount s"
    and "pageLoadCount s' = pageLoadCount s \<Longrightarrow> s' = s"
proof -
  show "totalFrames s' = totalFrames s"
    using arg_cong [OF assms, of totalFrames] by simp
  show "accesses s' = accesses s"
    using arg_cong [OF assms, of accesses] by simp
  show "skipOptimal s' = skipOptimal s"
    using arg_cong [OF assms, of skipOptimal] by simp
  show "showLoadCount s' = showLoadCount s"
    using arg_cong [OF assms, of showLoadCount] by simp
  show "s' = s" if "pageLoadCount s' = pageLoadCount s"
  proof -
    have "s' = s'\<lparr>pageLoadCount := pageLoadCount s'\<rparr>" by simp
    also have "\<dots> = s\<lparr>pageLoadCount := pageLoadCount s'\<rparr>" by (rule assms)
    also have "\<dots> = s\<lparr>pageLoadCount := pageLoadCount s\<rparr>" by (simp only: that)
    also have "\<dots> = s" by simp
    finally show ?thesis .
  qed
qed

section \<open>Demand paging: exchange arguments\<close>

text \<open>A larger resident set never costs more faults.\<close>

lemma paging_mono:
  "paging F S qs n \<Longrightarrow> S \<subseteq> T \<Longrightarrow> finite T \<Longrightarrow> card T \<le> F \<Longrightarrow> \<exists>m\<le>n. paging F T qs m"
proof (induction arbitrary: T rule: paging.induct)
  case (paging_Nil S)
  then show ?case by (auto intro: paging.paging_Nil)
next
  case (paging_hit q S qs n)
  from paging_hit.IH [OF paging_hit.prems] obtain m where "m \<le> n" "paging F T qs m" by blast
  moreover have "q \<in> T" using paging_hit.hyps(1) paging_hit.prems(1) by blast
  ultimately show ?case by (blast intro: paging.paging_hit)
next
  case (paging_fault q S S' qs n)
  show ?case
  proof (cases "q \<in> T")
    case True
    have "S' \<subseteq> T" using paging_fault.hyps(3) paging_fault.prems(1) True by blast
    from paging_fault.IH [OF this paging_fault.prems(2,3)]
    obtain m where "m \<le> n" "paging F T qs m" by blast
    with True have "paging F T (q # qs) m" by (blast intro: paging.paging_hit)
    with \<open>m \<le> n\<close> show ?thesis by (intro exI [of _ m]) simp
  next
    case False
    have "S' \<subseteq> insert q T" using paging_fault.hyps(3) paging_fault.prems(1) by blast
    with False paging_fault.hyps have "paging F T (q # qs) (Suc n)"
      by (intro paging.paging_fault [of q T S'])
    then show ?thesis by blast
  qed
qed

lemma paging_drop_page:
  "paging F T qs n \<Longrightarrow> finite T \<Longrightarrow> card T \<le> F \<Longrightarrow> \<exists>m\<le>Suc n. paging F (T - {x}) qs m"
proof (induction rule: paging.induct)
  case (paging_Nil S)
  then show ?case by (auto intro: paging.paging_Nil)
next
  case (paging_hit q S qs n)
  show ?case
  proof (cases "q = x")
    case True
    have "paging F (S - {x}) (q # qs) (Suc n)"
      using True paging_hit.hyps paging_hit.prems
      by (intro paging.paging_fault [of q "S - {x}" S]) auto
    then show ?thesis by blast
  next
    case False
    from paging_hit.IH [OF paging_hit.prems] obtain m where "m \<le> Suc n" "paging F (S - {x}) qs m"
      by blast
    moreover have "q \<in> S - {x}" using False paging_hit.hyps(1) by simp
    ultimately show ?thesis by (blast intro: paging.paging_hit)
  qed
next
  case (paging_fault q S S' qs n)
  show ?case
  proof (cases "q = x")
    case True
    then have "S - {x} = S" using paging_fault.hyps(1) by blast
    moreover have "paging F S (q # qs) (Suc n)"
      using paging_fault.hyps by (intro paging.paging_fault [of q S S'])
    ultimately show ?thesis by (intro exI [of _ "Suc n"]) simp
  next
    case False
    from paging_fault.IH [OF paging_fault.hyps(4,5)]
    obtain m where m: "m \<le> Suc n" "paging F (S' - {x}) qs m" by blast
    have "card (S' - {x}) \<le> F"
      using paging_fault.hyps(4,5) by (meson card_Diff1_le le_trans)
    with False paging_fault.hyps m(2) have "paging F (S - {x}) (q # qs) (Suc m)"
      by (intro paging.paging_fault [of q "S - {x}" "S' - {x}"]) auto
    with m(1) show ?thesis by (intro exI [of _ "Suc m"]) simp
  qed
qed

lemma not_before_Cons:
  "not_before v e (q # qs) \<Longrightarrow> q \<noteq> e \<Longrightarrow> q \<noteq> v \<and> not_before v e qs"
  by (auto simp: not_before_def)

lemma paging_exchange:
  "paging F S qs n \<Longrightarrow> S = insert v C \<Longrightarrow> e \<notin> C \<Longrightarrow> v \<notin> C \<Longrightarrow> finite C \<Longrightarrow> card C < F \<Longrightarrow>
   not_before v e qs \<Longrightarrow> \<exists>m\<le>n. paging F (insert e C) qs m"
proof (induction arbitrary: C rule: paging.induct)
  case (paging_Nil S)
  then show ?case by (auto intro: paging.paging_Nil)
next
  case (paging_hit q S qs n)
  show ?case
  proof (cases "q = e")
    case True
    with paging_hit.hyps(1) paging_hit.prems(1,2) have "e = v" by auto
    with paging_hit.prems(1) have "insert e C = S" by simp
    moreover have "paging F S (q # qs) n"
      using paging_hit.hyps by (rule paging.paging_hit)
    ultimately show ?thesis by (intro exI [of _ n]) simp
  next
    case False
    with paging_hit.prems(6) have nb: "q \<noteq> v" "not_before v e qs"
      by (auto dest: not_before_Cons)
    with paging_hit.hyps(1) paging_hit.prems(1) have "q \<in> insert e C" by auto
    moreover from paging_hit.IH [OF paging_hit.prems(1-5) nb(2)]
    obtain m where "m \<le> n" "paging F (insert e C) qs m" by blast
    ultimately show ?thesis by (blast intro: paging.paging_hit)
  qed
next
  case (paging_fault q S S' qs n)
  have fin: "finite (insert e C)" and crd: "card (insert e C) \<le> F"
    using paging_fault.prems(2,4,5) by simp_all
  show ?case
  proof (cases "q = e")
    case True
    from paging_drop_page [OF paging_fault.hyps(6,4,5), of v]
    obtain m1 where m1: "m1 \<le> Suc n" "paging F (S' - {v}) qs m1" by blast
    have "S' - {v} \<subseteq> insert e C"
      using paging_fault.hyps(3) paging_fault.prems(1) True by blast
    from paging_mono [OF m1(2) this fin crd]
    obtain m where m: "m \<le> m1" "paging F (insert e C) qs m" by blast
    from m(2) True have "paging F (insert e C) (q # qs) m"
      by (intro paging.paging_hit) simp_all
    with m(1) m1(1) show ?thesis by (intro exI [of _ m]) simp
  next
    case False
    with paging_fault.prems(6) have nb: "q \<noteq> v" "not_before v e qs"
      by (auto dest: not_before_Cons)
    have qC: "q \<notin> insert e C"
      using False paging_fault.hyps(1) paging_fault.prems(1) by simp
    show ?thesis
    proof (cases "v \<in> S'")
      case True
      define C' where "C' = S' - {v}"
      have S': "S' = insert v C'" using True by (auto simp: C'_def)
      have "e \<notin> C'" using paging_fault.hyps(3) paging_fault.prems(1,2) False
        by (auto simp: C'_def)
      moreover have "v \<notin> C'" by (simp add: C'_def)
      moreover have finC': "finite C'" using paging_fault.hyps(4) by (simp add: C'_def)
      moreover have cardC': "card C' < F"
        using card_Diff1_less [OF paging_fault.hyps(4) True] paging_fault.hyps(5)
        by (simp add: C'_def)
      ultimately obtain m where m: "m \<le> n" "paging F (insert e C') qs m"
        using paging_fault.IH [OF S' _ _ _ _ nb(2)] by blast
      have "q \<in> insert e C'" using paging_fault.hyps(2) nb(1) by (simp add: C'_def)
      moreover have "insert e C' \<subseteq> insert q (insert e C)"
        using paging_fault.hyps(3) paging_fault.prems(1) by (auto simp: C'_def)
      moreover have "finite (insert e C')" using finC' by simp
      moreover have "card (insert e C') \<le> F" using finC' cardC' \<open>e \<notin> C'\<close> by simp
      ultimately have "paging F (insert e C) (q # qs) (Suc m)"
        using qC m(2) by (intro paging.paging_fault [of q "insert e C" "insert e C'"])
      with m(1) show ?thesis by (intro exI [of _ "Suc m"]) simp
    next
      case False
      then have "S' \<subseteq> insert q (insert e C)"
        using paging_fault.hyps(3) paging_fault.prems(1) by blast
      with qC paging_fault.hyps have "paging F (insert e C) (q # qs) (Suc n)"
        by (intro paging.paging_fault [of q "insert e C" S'])
      then show ?thesis by blast
    qed
  qed
qed

text \<open>
  The greedy choice: when the resident set is full, evicting a page that is requested
  again no sooner than every other resident page is at least as good as any other way
  of serving the fault.
\<close>

lemma paging_furthest:
  assumes S: "finite S" "card S = F" and q: "q \<notin> S" and v: "v \<in> S"
    and far: "\<forall>x\<in>S. not_before v x qs"
    and S': "q \<in> S'" "S' \<subseteq> insert q S" "finite S'" "card S' \<le> F"
    and run: "paging F S' qs n"
  shows "\<exists>m\<le>n. paging F (insert q (S - {v})) qs m"
proof -
  have fin: "finite (insert q (S - {v}))" using S(1) by simp
  have crd: "card (insert q (S - {v})) \<le> F"
    using card_Diff1_less [OF S(1) v] S q by simp
  show ?thesis
  proof (cases "v \<in> S'")
    case False
    then have "S' \<subseteq> insert q (S - {v})" using S'(2) by blast
    from paging_mono [OF run this fin crd] show ?thesis .
  next
    case True
    have "\<exists>e\<in>S. e \<notin> S'"
    proof (rule ccontr)
      assume "\<not> (\<exists>e\<in>S. e \<notin> S')"
      then have "insert q S \<subseteq> S'" using S'(1) by blast
      then have "card (insert q S) \<le> card S'" using S'(3) by (simp add: card_mono)
      then show False using S q S'(4) by simp
    qed
    then obtain e where e: "e \<in> S" "e \<notin> S'" by blast
    with True have ev: "e \<noteq> v" by blast
    define C where "C = insert q (S - {v, e})"
    have C: "e \<notin> C" "v \<notin> C" "finite C" using q e(1) v S(1) by (auto simp: C_def)
    have cardC: "card C < F"
    proof -
      have "card (S - {v}) < F" using card_Diff1_less [OF S(1) v] S(2) by simp
      moreover have "card ((S - {v}) - {e}) < card (S - {v})"
        using S(1) e(1) ev by (intro card_Diff1_less) simp_all
      moreover have "(S - {v}) - {e} = S - {v, e}" by blast
      ultimately have "Suc (card (S - {v, e})) < F" by simp
      then show ?thesis using q S(1) by (simp add: C_def)
    qed
    have "S' \<subseteq> insert v C" using S'(2) e(2) by (auto simp: C_def)
    moreover have "finite (insert v C)" "card (insert v C) \<le> F"
      using C cardC by simp_all
    ultimately obtain m1 where m1: "m1 \<le> n" "paging F (insert v C) qs m1"
      using paging_mono [OF run] by blast
    from far e(1) have "not_before v e qs" by blast
    from paging_exchange [OF m1(2) refl C(1,2,3) cardC this]
    obtain m where m: "m \<le> m1" "paging F (insert e C) qs m" by blast
    have "insert e C = insert q (S - {v})" using e(1) ev by (auto simp: C_def)
    with m m1(1) show ?thesis by (intro exI [of _ m]) simp
  qed
qed

section \<open>Binary search and the precomputed positions\<close>

text \<open>
  On a predicate that is monotone on \<open>i .. j - 1\<close> the loop of \<open>sort.Search\<close> returns
  the least index from which the predicate holds.
\<close>

lemma Search_loop_correct:
  "i \<le> j \<Longrightarrow> \<forall>a b. i \<le> a \<and> a \<le> b \<and> b < j \<and> f a \<longrightarrow> f b \<Longrightarrow>
   i \<le> Search_loop f i j \<and> Search_loop f i j \<le> j \<and>
   (\<forall>h. i \<le> h \<and> h < Search_loop f i j \<longrightarrow> \<not> f h) \<and>
   (\<forall>h. Search_loop f i j \<le> h \<and> h < j \<longrightarrow> f h)"
proof (induction f i j rule: Search_loop.induct)
  case (1 f i j)
  show ?case
  proof (cases "i < j")
    case False
    then have eq: "Search_loop f i j = i" by (subst Search_loop.simps) simp
    show ?thesis unfolding eq using "1.prems"(1) False by auto
  next
    case True
    define h where "h = (i + j) div 2"
    have h: "i \<le> h" "h < j" using True by (simp_all add: h_def)
    show ?thesis
    proof (cases "f h")
      case False
      have eq: "Search_loop f i j = Search_loop f (h + 1) j"
        using True False by (subst Search_loop.simps) (simp add: h_def)
      have mono: "\<forall>a b. h + 1 \<le> a \<and> a \<le> b \<and> b < j \<and> f a \<longrightarrow> f b"
      proof (intro allI impI)
        fix a b assume "h + 1 \<le> a \<and> a \<le> b \<and> b < j \<and> f a"
        then have "i \<le> a \<and> a \<le> b \<and> b < j \<and> f a" using h(1) by simp
        then show "f b" using "1.prems"(2) by blast
      qed
      have below: "\<not> f a" if "i \<le> a" "a \<le> h" for a
        using "1.prems"(2) that h(2) False by blast
      have "h + 1 \<le> j" using h(2) by simp
      from "1.IH"(1) [OF True False [unfolded h_def], folded h_def, OF this mono]
      have IH: "h + 1 \<le> Search_loop f (h + 1) j" "Search_loop f (h + 1) j \<le> j"
          "\<And>k. h + 1 \<le> k \<Longrightarrow> k < Search_loop f (h + 1) j \<Longrightarrow> \<not> f k"
          "\<And>k. Search_loop f (h + 1) j \<le> k \<Longrightarrow> k < j \<Longrightarrow> f k"
        by blast+
      have "\<not> f k" if "i \<le> k" "k < Search_loop f (h + 1) j" for k
      proof (cases "k \<le> h")
        case True
        with that(1) show ?thesis by (rule below)
      next
        case False
        then have "h + 1 \<le> k" by simp
        then show ?thesis using that(2) by (rule IH(3))
      qed
      then show ?thesis unfolding eq using IH(1,2,4) h(1) by auto
    next
      case fh: True
      have eq: "Search_loop f i j = Search_loop f i h"
        using True fh by (subst Search_loop.simps) (simp add: h_def)
      have mono: "\<forall>a b. i \<le> a \<and> a \<le> b \<and> b < h \<and> f a \<longrightarrow> f b"
      proof (intro allI impI)
        fix a b assume "i \<le> a \<and> a \<le> b \<and> b < h \<and> f a"
        then have "i \<le> a \<and> a \<le> b \<and> b < j \<and> f a" using h(2) by simp
        then show "f b" using "1.prems"(2) by blast
      qed
      have above: "f b" if "h \<le> b" "b < j" for b
        using "1.prems"(2) that h(1) fh by blast
      have fh': "\<not> \<not> f ((i + j) div 2)" using fh by (simp add: h_def)
      from "1.IH"(2) [OF True fh', folded h_def, OF h(1) mono]
      have IH: "i \<le> Search_loop f i h" "Search_loop f i h \<le> h"
          "\<And>k. i \<le> k \<Longrightarrow> k < Search_loop f i h \<Longrightarrow> \<not> f k"
          "\<And>k. Search_loop f i h \<le> k \<Longrightarrow> k < h \<Longrightarrow> f k"
        by blast+
      have "f k" if "Search_loop f i h \<le> k" "k < j" for k
      proof (cases "k < h")
        case True
        with that(1) show ?thesis by (rule IH(4))
      next
        case False
        then have "h \<le> k" by simp
        then show ?thesis using that(2) by (rule above)
      qed
      then show ?thesis unfolding eq using IH(1,2,3) h(2) by auto
    qed
  qed
qed

lemma SearchInts_sorted:
  assumes "sorted a"
  shows "SearchInts a x = int (length (takeWhile (\<lambda>y. y < x) a))"
proof -
  define f where "f = (\<lambda>i::int. a ! nat i \<ge> x)"
  define k where "k = Search_loop f 0 (int (length a))"
  have "f c" if "0 \<le> b" "b \<le> c" "c < int (length a)" "f b" for b c
  proof -
    have "a ! nat b \<le> a ! nat c"
      using assms that by (intro sorted_nth_mono) auto
    with that(4) show ?thesis by (simp add: f_def)
  qed
  then have mono: "\<forall>b c. 0 \<le> b \<and> b \<le> c \<and> c < int (length a) \<and> f b \<longrightarrow> f c"
    by blast
  from Search_loop_correct [of 0 "int (length a)" f, OF _ mono, folded k_def]
  have k: "0 \<le> k" "k \<le> int (length a)"
    "\<And>h. 0 \<le> h \<Longrightarrow> h < k \<Longrightarrow> \<not> f h" "\<And>h. k \<le> h \<Longrightarrow> h < int (length a) \<Longrightarrow> f h"
    by auto
  have "takeWhile (\<lambda>y. y < x) a = take (nat k) a"
  proof (rule takeWhile_eq_take_P_nth)
    fix i assume "i < nat k" "i < length a"
    then have "int i < k" by linarith
    with k(3) [of "int i"] show "a ! i < x" by (simp add: f_def)
  next
    assume "nat k < length a"
    then have "k < int (length a)" by linarith
    with k(4) [of k] show "\<not> a ! nat k < x" by (simp add: f_def)
  qed
  then have "length (takeWhile (\<lambda>y. y < x) a) = nat k"
    using k(2) by simp
  with k(1) show ?thesis by (simp add: SearchInts_def Search_def k_def f_def)
qed

text \<open>
  The map built by the first loop of \<open>OptimalAlgorithm\<close> holds, for every page, the
  ascending list of the positions at which the page occurs.
\<close>

lemma pageAccessPositions_occurrences:
  "map_slice (pageAccessPositions i accs m) p =
     map_slice m p @ occurrences i (map PageAccess.PageID accs) p"
  by (induction accs arbitrary: i m) (auto simp: map_slice_def)

lemma occurrences_append:
  "occurrences i (xs @ ys) p = occurrences i xs p @ occurrences (i + int (length xs)) ys p"
  by (induction xs arbitrary: i) (auto simp: algebra_simps)

lemma occurrences_bounds:
  "y \<in> set (occurrences i qs p) \<Longrightarrow> i \<le> y \<and> y < i + int (length qs)"
  by (induction qs arbitrary: i) (fastforce split: if_splits)+

lemma occurrences_sorted: "sorted (occurrences i qs p)"
  by (induction qs arbitrary: i) (auto dest: occurrences_bounds)

lemma occurrences_empty: "occurrences i qs p = [] \<longleftrightarrow> p \<notin> set qs"
  by (induction qs arbitrary: i) auto

lemma occurrences_hd:
  "p \<in> set qs \<Longrightarrow>
   hd (occurrences i qs p) = i + int (length (takeWhile (\<lambda>q. q \<noteq> p) qs))"
  by (induction qs arbitrary: i) (auto simp: occurrences_empty)

lemma takeWhile_append_split:
  "\<forall>y\<in>set xs. P y \<Longrightarrow> \<forall>y\<in>set ys. \<not> P y \<Longrightarrow> takeWhile P (xs @ ys) = xs"
  by (induction xs) (auto simp: takeWhile_eq_Nil_iff intro: takeWhile_eq_Nil_iff [THEN iffD2]) 

text \<open>
  What the binary search finds in a page's position list at index \<open>k\<close>: the end of the
  list exactly when the page does not occur after \<open>k\<close>, and otherwise the position of
  the next occurrence.
\<close>

lemma length_takeWhile_member:
  "p \<in> set xs \<Longrightarrow> length (takeWhile (\<lambda>q. q \<noteq> p) xs) < length xs"
  by (induction xs) auto

lemma next_use_split:
  assumes k: "k < length qs"
  shows "occurrences 0 qs p =
           occurrences 0 (take (Suc k) qs) p @ occurrences (int (Suc k)) (drop (Suc k) qs) p"
    and "takeWhile (\<lambda>y. y < int k + 1) (occurrences 0 qs p) = occurrences 0 (take (Suc k) qs) p"
proof -
  have len: "length (take (Suc k) qs) = Suc k" using k by simp
  have "occurrences 0 qs p = occurrences 0 (take (Suc k) qs @ drop (Suc k) qs) p" by simp
  also have "\<dots> = occurrences 0 (take (Suc k) qs) p @
      occurrences (0 + int (length (take (Suc k) qs))) (drop (Suc k) qs) p"
    by (rule occurrences_append)
  finally show split: "occurrences 0 qs p =
      occurrences 0 (take (Suc k) qs) p @ occurrences (int (Suc k)) (drop (Suc k) qs) p"
    using len by simp
  have "\<forall>y\<in>set (occurrences 0 (take (Suc k) qs) p). y < int k + 1"
    using len by (auto dest!: occurrences_bounds)
  moreover have "\<forall>y\<in>set (occurrences (int (Suc k)) (drop (Suc k) qs) p). \<not> y < int k + 1"
    by (auto dest!: occurrences_bounds)
  ultimately show "takeWhile (\<lambda>y. y < int k + 1) (occurrences 0 qs p) =
      occurrences 0 (take (Suc k) qs) p"
    unfolding split by (rule takeWhile_append_split)
qed

lemma next_use_link:
  assumes k: "k < length qs"
  shows "SearchInts (occurrences 0 qs p) (int k + 1) = int (length (occurrences 0 qs p))
           \<longleftrightarrow> \<not> used_again qs k p"
    and "used_again qs k p \<Longrightarrow>
           index_at (occurrences 0 qs p) (SearchInts (occurrences 0 qs p) (int k + 1)) =
             Inr (int (next_occurrence qs k p))"
proof -
  let ?A = "occurrences 0 (take (Suc k) qs) p"
  let ?B = "occurrences (int (Suc k)) (drop (Suc k) qs) p"
  have s: "SearchInts (occurrences 0 qs p) (int k + 1) = int (length ?A)"
    by (simp only: SearchInts_sorted [OF occurrences_sorted] next_use_split(2) [OF k])
  have split: "occurrences 0 qs p = ?A @ ?B" by (rule next_use_split(1) [OF k])
  show "SearchInts (occurrences 0 qs p) (int k + 1) = int (length (occurrences 0 qs p))
           \<longleftrightarrow> \<not> used_again qs k p"
    unfolding s by (subst split) (simp add: occurrences_empty used_again_def)
  assume u: "used_again qs k p"
  then have B: "?B \<noteq> []" by (simp add: occurrences_empty used_again_def)
  have "(?A @ ?B) ! length ?A = hd ?B" using B by (simp add: nth_append hd_conv_nth)
  also have "\<dots> = int (next_occurrence qs k p)"
    using u by (simp add: occurrences_hd used_again_def next_occurrence_def)
  finally have "occurrences 0 qs p ! length ?A = int (next_occurrence qs k p)"
    using split by simp
  moreover have "length ?A < length (occurrences 0 qs p)"
    using B arg_cong [OF split, of length] by simp
  ultimately show "index_at (occurrences 0 qs p) (SearchInts (occurrences 0 qs p) (int k + 1)) =
             Inr (int (next_occurrence qs k p))"
    unfolding s by (simp add: index_at_def)
qed

lemma next_occurrence_bounds:
  assumes "k < length qs"
  shows "used_again qs k p \<Longrightarrow> next_occurrence qs k p < length qs"
    and "\<not> used_again qs k p \<Longrightarrow> next_occurrence qs k p = length qs"
proof -
  let ?r = "drop (Suc k) qs"
  have len: "length ?r = length qs - Suc k" by simp
  show "next_occurrence qs k p < length qs" if "used_again qs k p"
  proof -
    from that have "p \<in> set ?r" by (simp add: used_again_def)
    then have "length (takeWhile (\<lambda>q. q \<noteq> p) ?r) < length ?r"
      by (rule length_takeWhile_member)
    with assms show ?thesis by (simp add: next_occurrence_def)
  qed
  show "next_occurrence qs k p = length qs" if "\<not> used_again qs k p"
  proof -
    from that have "takeWhile (\<lambda>q. q \<noteq> p) ?r = ?r"
      by (auto simp: used_again_def)
    then have "length (takeWhile (\<lambda>q. q \<noteq> p) ?r) = length ?r"
      by (rule arg_cong)
    with assms show ?thesis by (simp add: next_occurrence_def)
  qed
qed

text \<open>The next occurrence is the least position after \<open>k\<close> that holds the page.\<close>

lemma next_occurrence_least:
  assumes "used_again qs k p"
  shows "k < next_occurrence qs k p" and "next_occurrence qs k p < length qs"
    and "qs ! next_occurrence qs k p = p"
    and "\<And>j. k < j \<Longrightarrow> j < next_occurrence qs k p \<Longrightarrow> qs ! j \<noteq> p"
proof -
  let ?r = "drop (Suc k) qs"
  let ?t = "takeWhile (\<lambda>q. q \<noteq> p) ?r"
  from assms have mem: "p \<in> set ?r" by (simp add: used_again_def)
  then have lt: "length ?t < length ?r" by (rule length_takeWhile_member)
  show "k < next_occurrence qs k p" by (simp add: next_occurrence_def)
  show bound: "next_occurrence qs k p < length qs"
    using lt by (simp add: next_occurrence_def)
  have "?r ! length ?t = p"
    using nth_length_takeWhile [OF lt] by simp
  then show "qs ! next_occurrence qs k p = p"
    using lt by (simp add: next_occurrence_def)
  fix j assume j: "k < j" "j < next_occurrence qs k p"
  then have jj: "j - Suc k < length ?t" by (simp add: next_occurrence_def)
  then have "?t ! (j - Suc k) \<in> set ?t" by (rule nth_mem)
  then have "?t ! (j - Suc k) \<noteq> p" by (auto dest: set_takeWhileD)
  moreover have "?t ! (j - Suc k) = ?r ! (j - Suc k)"
    using jj by (rule takeWhile_nth)
  moreover have "?r ! (j - Suc k) = qs ! j"
    using j(1) bound j(2) by simp
  ultimately show "qs ! j \<noteq> p" by simp
qed

section \<open>The victim search of OptimalAlgorithm\<close>

text \<open>
  The search loop, started on the frames \<open>fs\<close> with the best next use so far \<open>far\<close>
  at frame \<open>vic\<close>: either no frame of \<open>fs\<close> beats \<open>far\<close> and the answer is \<open>vic\<close>, or
  the answer is the first frame of \<open>fs\<close> whose next occurrence is the greatest.
\<close>

lemma next_occurrence_le: "k < length qs \<Longrightarrow> next_occurrence qs k p \<le> length qs"
  using next_occurrence_bounds [of k qs p] by (cases "used_again qs k p") simp_all

lemma victim_search_spec:
  assumes k: "k < length qs" and pos: "\<And>p. map_slice positionsOf p = occurrences 0 qs p"
  shows "far < int (length qs) \<Longrightarrow>
    \<exists>r. victim_search positionsOf (int k) idx fs far vic = Inr r \<and>
     ((r = vic \<and> (\<forall>x\<in>set fs. int (next_occurrence qs k x) \<le> far)) \<or>
      (\<exists>j<length fs. r = idx + int j \<and> far < int (next_occurrence qs k (fs ! j)) \<and>
          (\<forall>l<length fs. next_occurrence qs k (fs ! l) \<le> next_occurrence qs k (fs ! j)) \<and>
          (\<forall>l<j. next_occurrence qs k (fs ! l) < next_occurrence qs k (fs ! j))))"
proof (induction fs arbitrary: idx far vic)
  case Nil
  then show ?case by simp
next
  case (Cons x fs)
  let ?K = "\<lambda>p. next_occurrence qs k p"
  show ?case
  proof (cases "used_again qs k x")
    case False
    then have r: "victim_search positionsOf (int k) idx (x # fs) far vic = Inr idx"
      using next_use_link(1) [OF k, of x] by (simp add: pos Let_def)
    have Kx: "?K x = length qs" using False k by (simp add: next_occurrence_bounds)
    have "\<forall>l<length (x # fs). ?K ((x # fs) ! l) \<le> ?K ((x # fs) ! 0)"
      using Kx next_occurrence_le [OF k] by simp
    moreover have "far < int (?K ((x # fs) ! 0))" using Kx Cons.prems by simp
    ultimately show ?thesis unfolding r
      by (intro exI [of _ idx] conjI disjI2 exI [of _ 0]) simp_all
  next
    case True
    have Kx: "?K x < length qs" using True k by (simp add: next_occurrence_bounds)
    have ix: "index_at (occurrences 0 qs x) (SearchInts (occurrences 0 qs x) (int k + 1)) = Inr (int (?K x))"
      using True by (rule next_use_link(2) [OF k])
    have ne: "SearchInts (occurrences 0 qs x) (int k + 1) \<noteq> int (length (occurrences 0 qs x))"
      using True next_use_link(1) [OF k, of x] by simp
    show ?thesis
    proof (cases "int (?K x) > far")
      case gt: True
      have r: "victim_search positionsOf (int k) idx (x # fs) far vic =
          victim_search positionsOf (int k) (idx + 1) fs (int (?K x)) idx"
        using ne ix gt by (simp add: pos Let_def)
      from Cons.IH [of "int (?K x)" "idx + 1" idx] Kx
      obtain r where res: "victim_search positionsOf (int k) (idx + 1) fs (int (?K x)) idx = Inr r"
        and alt: "(r = idx \<and> (\<forall>y\<in>set fs. int (?K y) \<le> int (?K x))) \<or>
          (\<exists>j<length fs. r = idx + 1 + int j \<and> int (?K x) < int (?K (fs ! j)) \<and>
            (\<forall>l<length fs. ?K (fs ! l) \<le> ?K (fs ! j)) \<and> (\<forall>l<j. ?K (fs ! l) < ?K (fs ! j)))"
        by auto
      from alt show ?thesis
      proof
        assume a: "r = idx \<and> (\<forall>y\<in>set fs. int (?K y) \<le> int (?K x))"
        then have "\<forall>l<length (x # fs). ?K ((x # fs) ! l) \<le> ?K ((x # fs) ! 0)"
          by (auto simp: nth_Cons')
        with a gt show ?thesis unfolding r res
          by (intro exI [of _ idx] conjI disjI2 exI [of _ 0]) simp_all
      next
        assume "\<exists>j<length fs. r = idx + 1 + int j \<and> int (?K x) < int (?K (fs ! j)) \<and>
            (\<forall>l<length fs. ?K (fs ! l) \<le> ?K (fs ! j)) \<and> (\<forall>l<j. ?K (fs ! l) < ?K (fs ! j))"
        then obtain j where j: "j < length fs" "r = idx + 1 + int j" "?K x < ?K (fs ! j)"
          "\<forall>l<length fs. ?K (fs ! l) \<le> ?K (fs ! j)" "\<forall>l<j. ?K (fs ! l) < ?K (fs ! j)"
          by auto
        have "\<forall>l<length (x # fs). ?K ((x # fs) ! l) \<le> ?K ((x # fs) ! Suc j)"
          using j(3,4) by (auto simp: nth_Cons')
        moreover have "\<forall>l<Suc j. ?K ((x # fs) ! l) < ?K ((x # fs) ! Suc j)"
          using j(3,5) by (auto simp: nth_Cons' less_Suc_eq_0_disj)
        moreover have "far < int (?K ((x # fs) ! Suc j))" using gt j(3) by simp
        ultimately show ?thesis unfolding r res using j(1,2)
          by (intro exI [of _ r] conjI disjI2 exI [of _ "Suc j"]) simp_all
      qed
    next
      case le: False
      have r: "victim_search positionsOf (int k) idx (x # fs) far vic =
          victim_search positionsOf (int k) (idx + 1) fs far vic"
        using ne ix le by (simp add: pos Let_def)
      from Cons.IH [of far "idx + 1" vic] Cons.prems
      obtain r where res: "victim_search positionsOf (int k) (idx + 1) fs far vic = Inr r"
        and alt: "(r = vic \<and> (\<forall>y\<in>set fs. int (?K y) \<le> far)) \<or>
          (\<exists>j<length fs. r = idx + 1 + int j \<and> far < int (?K (fs ! j)) \<and>
            (\<forall>l<length fs. ?K (fs ! l) \<le> ?K (fs ! j)) \<and> (\<forall>l<j. ?K (fs ! l) < ?K (fs ! j)))"
        by auto
      from alt show ?thesis
      proof
        assume "r = vic \<and> (\<forall>y\<in>set fs. int (?K y) \<le> far)"
        with le show ?thesis unfolding r res by simp
      next
        assume "\<exists>j<length fs. r = idx + 1 + int j \<and> far < int (?K (fs ! j)) \<and>
            (\<forall>l<length fs. ?K (fs ! l) \<le> ?K (fs ! j)) \<and> (\<forall>l<j. ?K (fs ! l) < ?K (fs ! j))"
        then obtain j where j: "j < length fs" "r = idx + 1 + int j" "far < int (?K (fs ! j))"
          "\<forall>l<length fs. ?K (fs ! l) \<le> ?K (fs ! j)" "\<forall>l<j. ?K (fs ! l) < ?K (fs ! j)"
          by auto
        have lt: "?K x < ?K (fs ! j)" using le j(3) by simp
        have "\<forall>l<length (x # fs). ?K ((x # fs) ! l) \<le> ?K ((x # fs) ! Suc j)"
          using lt j(4) by (auto simp: nth_Cons')
        moreover have "\<forall>l<Suc j. ?K ((x # fs) ! l) < ?K ((x # fs) ! Suc j)"
          using lt j(5) by (auto simp: nth_Cons' less_Suc_eq_0_disj)
        moreover have "far < int (?K ((x # fs) ! Suc j))" using j(3) by simp
        ultimately show ?thesis unfolding r res using j(1,2)
          by (intro exI [of _ r] conjI disjI2 exI [of _ "Suc j"]) simp_all
      qed
    qed
  qed
qed

text \<open>
  The search as the second copy of the source writes it returns the same frame, and
  the search on a non-empty frame list returns the first frame whose next occurrence
  is the greatest.
\<close>

lemma victim_search_alt_eq:
  assumes k: "k < length qs" and pos: "\<And>p. map_slice positionsOf p = occurrences 0 qs p"
  shows "far < int (length qs) \<Longrightarrow>
    victim_search_alt positionsOf (int (length qs)) (int k) idx fs far vic =
    victim_search positionsOf (int k) idx fs far vic"
proof (induction fs arbitrary: idx far vic)
  case Nil
  then show ?case by simp
next
  case (Cons x fs)
  show ?case
  proof (cases "used_again qs k x")
    case False
    then have "SearchInts (occurrences 0 qs x) (int k + 1) = int (length (occurrences 0 qs x))"
      using next_use_link(1) [OF k, of x] by simp
    with Cons.prems show ?thesis by (simp add: pos Let_def)
  next
    case True
    have Kx: "next_occurrence qs k x < length qs"
      using True k by (simp add: next_occurrence_bounds)
    have ix: "index_at (occurrences 0 qs x) (SearchInts (occurrences 0 qs x) (int k + 1)) =
        Inr (int (next_occurrence qs k x))"
      using True by (rule next_use_link(2) [OF k])
    have ne: "SearchInts (occurrences 0 qs x) (int k + 1) \<noteq> int (length (occurrences 0 qs x))"
      using True next_use_link(1) [OF k, of x] by simp
    show ?thesis
    proof (cases "int (next_occurrence qs k x) > far")
      case gt: True
      from Cons.IH [of "int (next_occurrence qs k x)" "idx + 1" idx] Kx ne ix gt
      show ?thesis by (simp add: pos Let_def)
    next
      case le: False
      from Cons.IH [of far "idx + 1" vic] Cons.prems Kx ne ix le
      show ?thesis by (simp add: pos Let_def)
    qed
  qed
qed

lemma victim_search_first_max:
  assumes k: "k < length qs" and pos: "\<And>p. map_slice positionsOf p = occurrences 0 qs p"
    and fs: "fs \<noteq> []"
  shows "\<exists>j<length fs.
      victim_search positionsOf (int k) 0 fs (- 1) (- 1) = Inr (int j) \<and>
      victim_search_alt positionsOf (int (length qs)) (int k) 0 fs (- 1) (- 1) = Inr (int j) \<and>
      (\<forall>l<length fs. next_occurrence qs k (fs ! l) \<le> next_occurrence qs k (fs ! j)) \<and>
      (\<forall>l<j. next_occurrence qs k (fs ! l) < next_occurrence qs k (fs ! j))"
proof -
  have far: "- 1 < int (length qs)" by simp
  from victim_search_spec [OF k pos far, of 0 fs "- 1"]
  obtain r where r: "victim_search positionsOf (int k) 0 fs (- 1) (- 1) = Inr r"
    and alt: "(r = - 1 \<and> (\<forall>x\<in>set fs. int (next_occurrence qs k x) \<le> - 1)) \<or>
      (\<exists>j<length fs. r = 0 + int j \<and> - 1 < int (next_occurrence qs k (fs ! j)) \<and>
          (\<forall>l<length fs. next_occurrence qs k (fs ! l) \<le> next_occurrence qs k (fs ! j)) \<and>
          (\<forall>l<j. next_occurrence qs k (fs ! l) < next_occurrence qs k (fs ! j)))"
    by blast
  from fs obtain x where "x \<in> set fs" by (cases fs) auto
  then have "\<not> (\<forall>x\<in>set fs. int (next_occurrence qs k x) \<le> - 1)" by force
  with alt obtain j where j: "j < length fs" "r = int j"
    "\<forall>l<length fs. next_occurrence qs k (fs ! l) \<le> next_occurrence qs k (fs ! j)"
    "\<forall>l<j. next_occurrence qs k (fs ! l) < next_occurrence qs k (fs ! j)"
    by auto
  show ?thesis
    using j r victim_search_alt_eq [OF k pos far, of 0 fs "- 1"]
    by (intro exI [of _ j]) simp
qed

text \<open>A page whose next occurrence is the latest is not requested before any other.\<close>

lemma latest_not_before:
  assumes "length (takeWhile (\<lambda>q. q \<noteq> x) rest) \<le> length (takeWhile (\<lambda>q. q \<noteq> w) rest)"
  shows "not_before w x rest"
proof -
  have "set (takeWhile (\<lambda>q. q \<noteq> x) rest) = set (take (length (takeWhile (\<lambda>q. q \<noteq> x) rest)) rest)"
    using takeWhile_eq_take [of "\<lambda>q. q \<noteq> x" rest] by simp
  also have "\<dots> \<subseteq> set (take (length (takeWhile (\<lambda>q. q \<noteq> w) rest)) rest)"
    using assms by (rule set_take_subset_set_take)
  also have "\<dots> = set (takeWhile (\<lambda>q. q \<noteq> w) rest)"
    using takeWhile_eq_take [of "\<lambda>q. q \<noteq> w" rest] by simp
  finally have "set (takeWhile (\<lambda>q. q \<noteq> x) rest) \<subseteq> set (takeWhile (\<lambda>q. q \<noteq> w) rest)" .
  moreover have "w \<notin> set (takeWhile (\<lambda>q. q \<noteq> w) rest)"
    by (auto dest: set_takeWhileD)
  ultimately show ?thesis by (auto simp: not_before_def)
qed

lemma next_occurrence_not_before:
  "next_occurrence qs k x \<le> next_occurrence qs k w \<Longrightarrow> not_before w x (drop (Suc k) qs)"
  by (rule latest_not_before) (simp add: next_occurrence_def)

section \<open>One access of OptimalAlgorithm\<close>

lemma positions_of_trace:
  "map_slice (pageAccessPositions 0 accs Map.empty) p = occurrences 0 (map PageAccess.PageID accs) p"
  by (simp add: pageAccessPositions_occurrences) (simp add: map_slice_def)

lemma OptimalAlgorithm_access_hit:
  "OPT.inMemory v (PageAccess.PageID a) = Some b \<Longrightarrow>
   OptimalAlgorithm_access positionsOf i a (v, s) = Inr (v, s)"
  by (simp add: OptimalAlgorithm_access_def)

lemma OptimalAlgorithm_access_free:
  "OPT.inMemory v (PageAccess.PageID a) = None \<Longrightarrow> int (length (OPT.frames v)) < totalFrames s \<Longrightarrow>
   OptimalAlgorithm_access positionsOf i a (v, s) =
     Inr (v\<lparr>OPT.frames := OPT.frames v @ [PageAccess.PageID a],
            OPT.inMemory := (OPT.inMemory v)(PageAccess.PageID a \<mapsto> True),
            OPT.pageFaults := OPT.pageFaults v + 1\<rparr>,
          s\<lparr>pageLoadCount := increment (pageLoadCount s) (PageAccess.PageID a)\<rparr>)"
  by (simp add: OptimalAlgorithm_access_def Let_def)

lemma OptimalAlgorithm_access_replace:
  assumes k: "k < length accs"
    and miss: "OPT.inMemory v (PageAccess.PageID (accs ! k)) = None"
    and full: "\<not> int (length (OPT.frames v)) < totalFrames s"
    and ne: "OPT.frames v \<noteq> []"
  shows "\<exists>j<length (OPT.frames v).
     OptimalAlgorithm_access (pageAccessPositions 0 accs Map.empty) (int k) (accs ! k) (v, s) =
       Inr (v\<lparr>OPT.frames := (OPT.frames v)[j := PageAccess.PageID (accs ! k)],
              OPT.inMemory := ((OPT.inMemory v)(OPT.frames v ! j := None))
                                (PageAccess.PageID (accs ! k) \<mapsto> True),
              OPT.pageFaults := OPT.pageFaults v + 1\<rparr>,
            s\<lparr>pageLoadCount := increment (pageLoadCount s) (PageAccess.PageID (accs ! k))\<rparr>) \<and>
     victim_search_alt (pageAccessPositions 0 accs Map.empty) (int (length accs)) (int k) 0
       (OPT.frames v) (- 1) (- 1) = Inr (int j) \<and>
     (\<forall>l<length (OPT.frames v).
        next_occurrence (map PageAccess.PageID accs) k (OPT.frames v ! l)
          \<le> next_occurrence (map PageAccess.PageID accs) k (OPT.frames v ! j)) \<and>
     (\<forall>l<j. next_occurrence (map PageAccess.PageID accs) k (OPT.frames v ! l)
          < next_occurrence (map PageAccess.PageID accs) k (OPT.frames v ! j))"
proof -
  let ?qs = "map PageAccess.PageID accs"
  have k': "k < length ?qs" using k by simp
  from victim_search_first_max [OF k' positions_of_trace ne]
  obtain j where j: "j < length (OPT.frames v)"
    "victim_search (pageAccessPositions 0 accs Map.empty) (int k) 0 (OPT.frames v) (- 1) (- 1) = Inr (int j)"
    "victim_search_alt (pageAccessPositions 0 accs Map.empty) (int (length ?qs)) (int k) 0 (OPT.frames v) (- 1) (- 1) = Inr (int j)"
    "\<forall>l<length (OPT.frames v). next_occurrence ?qs k (OPT.frames v ! l) \<le> next_occurrence ?qs k (OPT.frames v ! j)"
    "\<forall>l<j. next_occurrence ?qs k (OPT.frames v ! l) < next_occurrence ?qs k (OPT.frames v ! j)"
    by blast
  have "OptimalAlgorithm_access (pageAccessPositions 0 accs Map.empty) (int k) (accs ! k) (v, s) =
       Inr (v\<lparr>OPT.frames := (OPT.frames v)[j := PageAccess.PageID (accs ! k)],
              OPT.inMemory := ((OPT.inMemory v)(OPT.frames v ! j := None))
                                (PageAccess.PageID (accs ! k) \<mapsto> True),
              OPT.pageFaults := OPT.pageFaults v + 1\<rparr>,
            s\<lparr>pageLoadCount := increment (pageLoadCount s) (PageAccess.PageID (accs ! k))\<rparr>)"
    using miss full j(1,2) by (simp add: OptimalAlgorithm_access_def Let_def index_at_def)
  with j show ?thesis by (intro exI [of _ j]) simp
qed

text \<open>
  One access from a state that satisfies the invariant, with at least one frame: the
  access does not panic and keeps the invariant; a fault fills a free frame if there
  is one, and otherwise replaces a page that is requested again no sooner than any
  other resident page.
\<close>

inductive_cases paging_ConsE: "paging F S (q # qs) n"

lemma paging_capacity_mono: "paging F S qs n \<Longrightarrow> F \<le> F' \<Longrightarrow> paging F' S qs n"
  by (induction rule: paging.induct) (auto intro: paging.intros)

lemma paging_hitD: "paging F S (q # qs) n \<Longrightarrow> q \<in> S \<Longrightarrow> paging F S qs n"
  by (erule paging_ConsE) auto

lemma paging_faultD:
  "paging F S (q # qs) n \<Longrightarrow> q \<notin> S \<Longrightarrow>
   \<exists>S' n'. n = Suc n' \<and> q \<in> S' \<and> S' \<subseteq> insert q S \<and> finite S' \<and> card S' \<le> F \<and> paging F S' qs n'"
  by (erule paging_ConsE) auto

lemma OPT_inv_card:
  "OPT_inv F v \<Longrightarrow> finite (set (OPT.frames v)) \<and> card (set (OPT.frames v)) = length (OPT.frames v)"
  by (simp add: OPT_inv_def distinct_card)

lemma OptimalAlgorithm_access_step:
  assumes inv: "OPT_inv F v" and F: "totalFrames s = int F" "1 \<le> F"
    and k: "k < length accs"
  shows "\<exists>v' s'.
     OptimalAlgorithm_access (pageAccessPositions 0 accs Map.empty) (int k) (accs ! k) (v, s) = Inr (v', s') \<and>
     OPT_inv F v' \<and> totalFrames s' = int F \<and>
     (if PageAccess.PageID (accs ! k) \<in> set (OPT.frames v) then v' = v \<and> s' = s
      else OPT.pageFaults v' = OPT.pageFaults v + 1 \<and>
           s' = s\<lparr>pageLoadCount := increment (pageLoadCount s) (PageAccess.PageID (accs ! k))\<rparr> \<and>
           (if length (OPT.frames v) < F
            then OPT.frames v' = OPT.frames v @ [PageAccess.PageID (accs ! k)]
            else \<exists>j<length (OPT.frames v).
                   OPT.frames v' = (OPT.frames v)[j := PageAccess.PageID (accs ! k)] \<and>
                   (\<forall>x\<in>set (OPT.frames v).
                      not_before (OPT.frames v ! j) x (drop (Suc k) (map PageAccess.PageID accs)))))"
proof -
  let ?q = "PageAccess.PageID (accs ! k)"
  let ?fs = "OPT.frames v"
  from inv have dist: "distinct ?fs" and dom: "dom (OPT.inMemory v) = set ?fs" and len: "length ?fs \<le> F"
    by (simp_all add: OPT_inv_def)
  show ?thesis
  proof (cases "?q \<in> set ?fs")
    case True
    with dom obtain b where "OPT.inMemory v ?q = Some b" by auto
    from OptimalAlgorithm_access_hit [OF this] True inv F(1) show ?thesis by simp
  next
    case False
    with dom have miss: "OPT.inMemory v ?q = None" by auto
    show ?thesis
    proof (cases "length ?fs < F")
      case True
      then have free: "int (length ?fs) < totalFrames s" using F(1) by simp
      have "OPT_inv F (v\<lparr>OPT.frames := ?fs @ [?q],
              OPT.inMemory := (OPT.inMemory v)(?q \<mapsto> True),
              OPT.pageFaults := OPT.pageFaults v + 1\<rparr>)"
        using dist dom True False by (simp add: OPT_inv_def)
      with OptimalAlgorithm_access_free [OF miss free] False True F(1) show ?thesis by simp
    next
      case full: False
      with F have full': "\<not> int (length ?fs) < totalFrames s" and ne: "?fs \<noteq> []" by auto
      from OptimalAlgorithm_access_replace [OF k miss full' ne]
      obtain j where j: "j < length ?fs"
        and acc: "OptimalAlgorithm_access (pageAccessPositions 0 accs Map.empty) (int k) (accs ! k) (v, s) =
          Inr (v\<lparr>OPT.frames := ?fs[j := ?q],
                 OPT.inMemory := ((OPT.inMemory v)(?fs ! j := None))(?q \<mapsto> True),
                 OPT.pageFaults := OPT.pageFaults v + 1\<rparr>,
               s\<lparr>pageLoadCount := increment (pageLoadCount s) ?q\<rparr>)"
        and mx: "\<forall>l<length ?fs. next_occurrence (map PageAccess.PageID accs) k (?fs ! l)
              \<le> next_occurrence (map PageAccess.PageID accs) k (?fs ! j)"
        by blast
      have set': "set (?fs[j := ?q]) = insert ?q (set ?fs - {?fs ! j})"
        using dist j by (rule set_update_distinct)
      have "distinct (?fs[j := ?q])"
        using dist False by (intro distinct_list_update) auto
      moreover have "dom (((OPT.inMemory v)(?fs ! j := None))(?q \<mapsto> True)) = set (?fs[j := ?q])"
        using dom set' by auto
      ultimately have inv': "OPT_inv F (v\<lparr>OPT.frames := ?fs[j := ?q],
                 OPT.inMemory := ((OPT.inMemory v)(?fs ! j := None))(?q \<mapsto> True),
                 OPT.pageFaults := OPT.pageFaults v + 1\<rparr>)"
        using len by (simp add: OPT_inv_def)
      have nb: "\<forall>x\<in>set ?fs. not_before (?fs ! j) x (drop (Suc k) (map PageAccess.PageID accs))"
      proof
        fix x assume "x \<in> set ?fs"
        then obtain l where "l < length ?fs" "x = ?fs ! l" by (auto simp: in_set_conv_nth)
        with mx show "not_before (?fs ! j) x (drop (Suc k) (map PageAccess.PageID accs))"
          by (intro next_occurrence_not_before) simp
      qed
      have "\<exists>j'<length ?fs. ?fs[j := ?q] = ?fs[j' := ?q] \<and>
          (\<forall>x\<in>set ?fs. not_before (?fs ! j') x (drop (Suc k) (map PageAccess.PageID accs)))"
        using j nb by blast
      with inv' F(1) False full show ?thesis by (simp add: acc)
    qed
  qed
qed

section \<open>OptimalAlgorithm against every demand-paging policy\<close>

text \<open>
  From any state of the optimal run, the rest of the run has no more faults than any
  demand-paging execution that starts with the same resident set; and the rest of the
  run is itself such an execution.
\<close>

lemma drop_Cons_nth:
  assumes "a # rest = drop k xs"
  shows "k < length xs" and "xs ! k = a" and "rest = drop (Suc k) xs"
proof -
  show k: "k < length xs" using assms by (cases "k < length xs") auto
  from Cons_nth_drop_Suc [OF k] assms have "xs ! k # drop (Suc k) xs = a # rest" by simp
  then show "xs ! k = a" "rest = drop (Suc k) xs" by simp_all
qed

lemma OptimalAlgorithm_loop_optimal:
  assumes F: "1 \<le> F"
  shows "OPT_inv F v \<Longrightarrow> totalFrames s = int F \<Longrightarrow> rest = drop k accs \<Longrightarrow>
    paging F (set (OPT.frames v)) (map PageAccess.PageID rest) n \<Longrightarrow>
    \<exists>v' s'. OptimalAlgorithm_loop (pageAccessPositions 0 accs Map.empty) (int k) rest (v, s) = Inr (v', s') \<and>
       OPT.pageFaults v' \<le> OPT.pageFaults v + int n"
proof (induction rest arbitrary: k v s n)
  case Nil
  then show ?case by simp
next
  case (Cons a rest)
  let ?q = "PageAccess.PageID a"
  let ?S = "set (OPT.frames v)"
  let ?qs = "map PageAccess.PageID rest"
  from drop_Cons_nth [OF Cons.prems(3)]
  have k: "k < length accs" and a: "accs ! k = a" and rest: "rest = drop (Suc k) accs" by auto
  have rest': "drop (Suc k) (map PageAccess.PageID accs) = ?qs" by (simp add: rest drop_map)
  from OptimalAlgorithm_access_step [OF Cons.prems(1,2) F k, unfolded a rest']
  obtain v1 s1 where
    acc: "OptimalAlgorithm_access (pageAccessPositions 0 accs Map.empty) (int k) a (v, s) = Inr (v1, s1)"
    and inv1: "OPT_inv F v1" and F1: "totalFrames s1 = int F"
    and eff: "if ?q \<in> ?S then v1 = v \<and> s1 = s
      else OPT.pageFaults v1 = OPT.pageFaults v + 1 \<and>
           s1 = s\<lparr>pageLoadCount := increment (pageLoadCount s) ?q\<rparr> \<and>
           (if length (OPT.frames v) < F then OPT.frames v1 = OPT.frames v @ [?q]
            else \<exists>j<length (OPT.frames v). OPT.frames v1 = (OPT.frames v)[j := ?q] \<and>
                   (\<forall>x\<in>?S. not_before (OPT.frames v ! j) x ?qs))"
    by blast
  have loop: "OptimalAlgorithm_loop (pageAccessPositions 0 accs Map.empty) (int k) (a # rest) (v, s) =
      OptimalAlgorithm_loop (pageAccessPositions 0 accs Map.empty) (int (Suc k)) rest (v1, s1)"
    using acc by (simp add: add.commute)
  from Cons.prems(4) have run: "paging F ?S (?q # ?qs) n" by simp
  from OPT_inv_card [OF Cons.prems(1)] have fin: "finite ?S" and crd: "card ?S = length (OPT.frames v)"
    by simp_all
  from Cons.prems(1) have dist: "distinct (OPT.frames v)" and len: "length (OPT.frames v) \<le> F"
    by (simp_all add: OPT_inv_def)
  show ?case
  proof (cases "?q \<in> ?S")
    case True
    with eff have same: "v1 = v" "s1 = s" by simp_all
    from paging_hitD [OF run True] have "paging F (set (OPT.frames v1)) ?qs n" by (simp add: same)
    from Cons.IH [OF inv1 F1 rest this] show ?thesis unfolding loop by (simp add: same)
  next
    case False
    with eff have pf: "OPT.pageFaults v1 = OPT.pageFaults v + 1" by simp
    from paging_faultD [OF run False] obtain S' n' where
      n: "n = Suc n'" and S': "?q \<in> S'" "S' \<subseteq> insert ?q ?S" "finite S'" "card S' \<le> F"
      and run': "paging F S' ?qs n'"
      by blast
    have "\<exists>m\<le>n'. paging F (set (OPT.frames v1)) ?qs m"
    proof (cases "length (OPT.frames v) < F")
      case True
      with eff False have fr: "OPT.frames v1 = OPT.frames v @ [?q]" by simp
      have "card (insert ?q ?S) \<le> F" using fin False crd True by simp
      with paging_mono [OF run' S'(2)] fin show ?thesis by (simp add: fr)
    next
      case full: False
      with eff False obtain j where j: "j < length (OPT.frames v)"
        and fr: "OPT.frames v1 = (OPT.frames v)[j := ?q]"
        and nb: "\<forall>x\<in>?S. not_before (OPT.frames v ! j) x ?qs"
        by auto
      have set1: "set (OPT.frames v1) = insert ?q (?S - {OPT.frames v ! j})"
        unfolding fr using dist j by (rule set_update_distinct)
      have "card ?S = F" using crd full len by simp
      from paging_furthest [OF fin this False nth_mem [OF j] nb S' run']
      show ?thesis by (simp add: set1)
    qed
    then obtain m where m: "m \<le> n'" "paging F (set (OPT.frames v1)) ?qs m" by blast
    from Cons.IH [OF inv1 F1 rest m(2)] m(1) n pf show ?thesis unfolding loop by auto
  qed
qed

lemma OptimalAlgorithm_loop_paging:
  assumes F: "1 \<le> F"
  shows "OPT_inv F v \<Longrightarrow> totalFrames s = int F \<Longrightarrow> rest = drop k accs \<Longrightarrow>
    \<exists>v' s' n. OptimalAlgorithm_loop (pageAccessPositions 0 accs Map.empty) (int k) rest (v, s) = Inr (v', s') \<and>
       OPT.pageFaults v' = OPT.pageFaults v + int n \<and>
       paging F (set (OPT.frames v)) (map PageAccess.PageID rest) n"
proof (induction rest arbitrary: k v s)
  case Nil
  have "paging F (set (OPT.frames v)) [] 0" by (rule paging_Nil)
  then show ?case by (intro exI [of _ v] exI [of _ s] exI [of _ 0]) simp
next
  case (Cons a rest)
  let ?q = "PageAccess.PageID a"
  let ?S = "set (OPT.frames v)"
  let ?qs = "map PageAccess.PageID rest"
  from drop_Cons_nth [OF Cons.prems(3)]
  have k: "k < length accs" and a: "accs ! k = a" and rest: "rest = drop (Suc k) accs" by auto
  from OptimalAlgorithm_access_step [OF Cons.prems(1,2) F k, unfolded a]
  obtain v1 s1 where
    acc: "OptimalAlgorithm_access (pageAccessPositions 0 accs Map.empty) (int k) a (v, s) = Inr (v1, s1)"
    and inv1: "OPT_inv F v1" and F1: "totalFrames s1 = int F"
    and eff: "if ?q \<in> ?S then v1 = v \<and> s1 = s
      else OPT.pageFaults v1 = OPT.pageFaults v + 1 \<and>
           s1 = s\<lparr>pageLoadCount := increment (pageLoadCount s) ?q\<rparr> \<and>
           (if length (OPT.frames v) < F then OPT.frames v1 = OPT.frames v @ [?q]
            else \<exists>j<length (OPT.frames v). OPT.frames v1 = (OPT.frames v)[j := ?q] \<and>
                   (\<forall>x\<in>?S. not_before (OPT.frames v ! j) x (drop (Suc k) (map PageAccess.PageID accs))))"
    by blast
  have loop: "OptimalAlgorithm_loop (pageAccessPositions 0 accs Map.empty) (int k) (a # rest) (v, s) =
      OptimalAlgorithm_loop (pageAccessPositions 0 accs Map.empty) (int (Suc k)) rest (v1, s1)"
    using acc by (simp add: add.commute)
  from Cons.IH [OF inv1 F1 rest] obtain v' s' n where
    res: "OptimalAlgorithm_loop (pageAccessPositions 0 accs Map.empty) (int (Suc k)) rest (v1, s1) = Inr (v', s')"
    and cnt: "OPT.pageFaults v' = OPT.pageFaults v1 + int n"
    and run: "paging F (set (OPT.frames v1)) ?qs n"
    by blast
  show ?case
  proof (cases "?q \<in> ?S")
    case True
    with eff have same: "v1 = v" "s1 = s" by simp_all
    from run True have "paging F ?S (?q # ?qs) n" by (intro paging_hit) (simp_all add: same)
    with res cnt show ?thesis unfolding loop
      by (intro exI [of _ v'] exI [of _ s'] exI [of _ n]) (simp add: same)
  next
    case False
    with eff have pf: "OPT.pageFaults v1 = OPT.pageFaults v + 1" by simp
    have sub: "?q \<in> set (OPT.frames v1) \<and> set (OPT.frames v1) \<subseteq> insert ?q ?S"
    proof (cases "length (OPT.frames v) < F")
      case True
      with eff False show ?thesis by auto
    next
      case full: False
      with eff False obtain j where "j < length (OPT.frames v)"
        "OPT.frames v1 = (OPT.frames v)[j := ?q]" by auto
      then show ?thesis
        using set_update_subset_insert [of "OPT.frames v" j ?q] by (auto simp: set_update_memI)
    qed
    from OPT_inv_card [OF inv1] inv1 have "finite (set (OPT.frames v1))" "card (set (OPT.frames v1)) \<le> F"
      by (simp_all add: OPT_inv_def)
    with sub False run have "paging F ?S (?q # ?qs) (Suc n)"
      by (intro paging_fault [of ?q ?S "set (OPT.frames v1)"]) simp_all
    with res cnt pf show ?thesis unfolding loop
      by (intro exI [of _ v'] exI [of _ s'] exI [of _ "Suc n"]) simp
  qed
qed

section \<open>One access of ClockAlgorithm\<close>

text \<open>
  The victim loop on a full frame table: it returns, replaces the page of exactly one
  frame, keeps every other page where it was, and updates \<open>pageToFrame\<close> for the two
  pages involved.
\<close>

lemma go_rem_nonneg: "0 \<le> a \<Longrightarrow> 0 < b \<Longrightarrow> go_rem a b = Inr (a mod b)"
  by (simp add: go_rem_def smod_int_alt_def sgn_if)

lemma frame_pages_simps [simp]:
  "length (frame_pages fs) = length fs"
  "k < length fs \<Longrightarrow> frame_pages fs ! k = map_option PageFrame.PageID (fs ! k)"
  "frame_pages (fs[k := f]) = (frame_pages fs)[k := map_option PageFrame.PageID f]"
  by (simp_all add: frame_pages_def map_update)

lemma frame_pages_same:
  "k < length fs \<Longrightarrow> fs ! k = Some fr \<Longrightarrow> PageFrame.PageID fr' = PageFrame.PageID fr \<Longrightarrow>
   frame_pages (fs[k := Some fr']) = frame_pages fs"
  by (simp add: list_update_same_conv)

lemma victim_loop_pages:
  "length (Clock.frames v) = F \<Longrightarrow> 0 < F \<Longrightarrow> 0 \<le> clockPointer v \<Longrightarrow> clockPointer v < int F \<Longrightarrow>
   None \<notin> set (Clock.frames v) \<Longrightarrow> nframes = int F \<Longrightarrow>
   \<exists>v' r. victim_loop nframes q v = Inr v' \<and> r < F \<and>
     frame_pages (Clock.frames v') = (frame_pages (Clock.frames v))[r := Some q] \<and>
     None \<notin> set (Clock.frames v') \<and> length (Clock.frames v') = F \<and>
     pageToFrame v' = ((pageToFrame v)(the (frame_pages (Clock.frames v) ! r) := None))(q \<mapsto> int r) \<and>
     0 \<le> clockPointer v' \<and> clockPointer v' < int F \<and>
     Clock.pageFaults v' = Clock.pageFaults v"
proof (induction nframes q v rule: victim_loop.induct)
  case (1 nframes q v)
  let ?fs = "Clock.frames v"
  let ?h = "nat (clockPointer v)"
  have h: "?h < length ?fs" using "1.prems" by simp
  then have "?fs ! ?h \<in> set ?fs" by (rule nth_mem)
  with "1.prems"(5) obtain fr where fr: "?fs ! ?h = Some fr" by (cases "?fs ! ?h") auto
  have ix: "index_at ?fs (clockPointer v) = Inr (Some fr)"
    using "1.prems"(1,3,4) fr by (simp add: index_at_def)
  have rem: "go_rem (clockPointer v + 1) nframes = Inr ((clockPointer v + 1) mod int F)"
    using "1.prems"(2,3,6) by (simp add: go_rem_nonneg)
  have next_ok: "0 \<le> (clockPointer v + 1) mod int F" "(clockPointer v + 1) mod int F < int F"
    using "1.prems"(2) by simp_all
  show ?case
  proof (cases "Referenced fr")
    case False
    have res: "victim_loop nframes q v =
        Inr (v\<lparr>Clock.frames := ?fs[?h := Some \<lparr>PageID = q, Referenced = True, LoadCount = 1\<rparr>],
               pageToFrame := ((pageToFrame v)(PageFrame.PageID fr := None))(q \<mapsto> clockPointer v),
               clockPointer := (clockPointer v + 1) mod int F\<rparr>)"
      using ix rem False by (subst victim_loop.simps) simp
    have none': "None \<notin> set (?fs[?h := Some \<lparr>PageID = q, Referenced = True, LoadCount = 1\<rparr>])"
      using "1.prems"(5) by (auto dest!: set_update_subset_insert [THEN subsetD])
    have e1: "the (frame_pages ?fs ! ?h) = PageFrame.PageID fr" using h fr by simp
    have e2: "int ?h = clockPointer v" using "1.prems"(3) by simp
    let ?v' = "v\<lparr>Clock.frames := ?fs[?h := Some \<lparr>PageID = q, Referenced = True, LoadCount = 1\<rparr>],
               pageToFrame := ((pageToFrame v)(PageFrame.PageID fr := None))(q \<mapsto> clockPointer v),
               clockPointer := (clockPointer v + 1) mod int F\<rparr>"
    have "pageToFrame ?v' = ((pageToFrame v)(the (frame_pages ?fs ! ?h) := None))(q \<mapsto> int ?h)"
      unfolding e1 e2 by simp
    moreover have "frame_pages (Clock.frames ?v') = (frame_pages ?fs)[?h := Some q]" by simp
    moreover have "?h < F" using h "1.prems"(1) by simp
    moreover have "None \<notin> set (Clock.frames ?v')" using none' by simp
    moreover have "length (Clock.frames ?v') = F" using "1.prems"(1) by simp
    moreover have "0 \<le> clockPointer ?v'" "clockPointer ?v' < int F" using next_ok by simp_all
    moreover have "Clock.pageFaults ?v' = Clock.pageFaults v" by simp
    ultimately show ?thesis unfolding res by blast
  next
    case True
    let ?v1 = "v\<lparr>Clock.frames := ?fs[?h := Some (fr\<lparr>Referenced := False\<rparr>)],
                 clockPointer := (clockPointer v + 1) mod int F\<rparr>"
    have res: "victim_loop nframes q v = victim_loop nframes q ?v1"
      using ix rem True by (subst victim_loop.simps) simp
    have pages: "frame_pages (Clock.frames ?v1) = frame_pages ?fs"
      using h fr by (simp add: list_update_same_conv)
    have none: "None \<notin> set (Clock.frames ?v1)"
      using "1.prems"(5) by (auto dest!: set_update_subset_insert [THEN subsetD])
    have True': "\<not> \<not> Referenced fr" using True by simp
    have len1: "length (Clock.frames ?v1) = F" using "1.prems"(1) by simp
    have p1: "0 \<le> clockPointer ?v1" and p2: "clockPointer ?v1 < int F"
      using next_ok by simp_all
    have ptf1: "pageToFrame ?v1 = pageToFrame v" and pf1: "Clock.pageFaults ?v1 = Clock.pageFaults v"
      by simp_all
    from "1.IH" [OF ix refl True' rem len1 "1.prems"(2) p1 p2 none "1.prems"(6)]
    obtain v' r where "victim_loop nframes q ?v1 = Inr v'" "r < F"
      "frame_pages (Clock.frames v') = (frame_pages (Clock.frames ?v1))[r := Some q]"
      "None \<notin> set (Clock.frames v')" "length (Clock.frames v') = F"
      "pageToFrame v' = ((pageToFrame ?v1)(the (frame_pages (Clock.frames ?v1) ! r) := None))(q \<mapsto> int r)"
      "0 \<le> clockPointer v'" "clockPointer v' < int F" "Clock.pageFaults v' = Clock.pageFaults ?v1"
      by blast
    then show ?thesis unfolding res pages ptf1 pf1 by blast
  qed
qed

text \<open>The search for an empty frame returns the lowest empty index, or \<open>- 1\<close>.\<close>

lemma emptyFrame_search_spec:
  "length fs = F \<Longrightarrow> j \<le> F \<Longrightarrow> n = F - j \<Longrightarrow>
   emptyFrame_search fs (int F) (int j) =
     (if None \<in> set (drop j fs)
      then Inr (int (j + length (takeWhile (\<lambda>f. f \<noteq> None) (drop j fs))))
      else Inr (- 1))"
proof (induction n arbitrary: j)
  case 0
  then show ?case by (subst emptyFrame_search.simps) simp
next
  case (Suc n)
  then have j: "j < F" by simp
  then have ix: "index_at fs (int j) = Inr (fs ! j)" using Suc.prems(1) by (simp add: index_at_def)
  have dr: "drop j fs = fs ! j # drop (Suc j) fs"
    using j Suc.prems(1) by (simp add: Cons_nth_drop_Suc)
  show ?case
  proof (cases "fs ! j")
    case None
    then show ?thesis using j ix by (subst emptyFrame_search.simps) (simp add: dr)
  next
    case (Some fr)
    have "emptyFrame_search fs (int F) (int j) = emptyFrame_search fs (int F) (int (Suc j))"
      using j ix Some by (subst emptyFrame_search.simps) (simp add: add.commute)
    also have "\<dots> = (if None \<in> set (drop (Suc j) fs)
      then Inr (int (Suc j + length (takeWhile (\<lambda>f. f \<noteq> None) (drop (Suc j) fs))))
      else Inr (- 1))"
      using Suc.prems j by (intro Suc.IH) simp_all
    finally show ?thesis using Some by (simp add: dr)
  qed
qed

lemma emptyFrame_search_first:
  assumes "length fs = F"
  shows "None \<in> set fs \<Longrightarrow>
      \<exists>e<F. emptyFrame_search fs (int F) 0 = Inr (int e) \<and> fs ! e = None \<and> (\<forall>l<e. fs ! l \<noteq> None)"
    and "None \<notin> set fs \<Longrightarrow> emptyFrame_search fs (int F) 0 = Inr (- 1)"
proof -
  from emptyFrame_search_spec [OF assms, of 0 F]
  have eq: "emptyFrame_search fs (int F) 0 =
     (if None \<in> set fs then Inr (int (length (takeWhile (\<lambda>f. f \<noteq> None) fs))) else Inr (- 1))"
    by simp
  show "emptyFrame_search fs (int F) 0 = Inr (- 1)" if "None \<notin> set fs"
    using that eq by simp
  show "\<exists>e<F. emptyFrame_search fs (int F) 0 = Inr (int e) \<and> fs ! e = None \<and> (\<forall>l<e. fs ! l \<noteq> None)"
    if "None \<in> set fs"
  proof -
    let ?e = "length (takeWhile (\<lambda>f. f \<noteq> None) fs)"
    have lt: "?e < length fs"
      using that by (induction fs) auto
    have "fs ! ?e = None" using nth_length_takeWhile [OF lt] by simp
    moreover have "fs ! l \<noteq> None" if "l < ?e" for l
    proof -
      have "takeWhile (\<lambda>f. f \<noteq> None) fs ! l \<in> set (takeWhile (\<lambda>f. f \<noteq> None) fs)"
        using that by (rule nth_mem)
      then have "takeWhile (\<lambda>f. f \<noteq> None) fs ! l \<noteq> None" by (auto dest: set_takeWhileD)
      then show ?thesis using takeWhile_nth [OF that] by simp
    qed
    ultimately show ?thesis using that eq lt assms by (intro exI [of _ ?e]) simp
  qed
qed

text \<open>
  The three branches of an access, and what an access does to a state that satisfies
  the invariant: it does not panic, keeps the invariant, and on a fault makes the page
  resident while no page other than it becomes resident.
\<close>

lemma ClockAlgorithm_access_hit:
  assumes inv: "Clock_inv F v" and hit: "pageToFrame v (PageAccess.PageID a) = Some k"
  shows "\<exists>fr. Clock.frames v ! nat k = Some fr \<and> PageFrame.PageID fr = PageAccess.PageID a \<and>
     0 \<le> k \<and> nat k < F \<and>
     ClockAlgorithm_access a (v, s) =
       Inr (v\<lparr>Clock.frames := (Clock.frames v)[nat k := Some (fr\<lparr>Referenced := True\<rparr>)]\<rparr>, s)"
proof -
  from inv hit have k: "0 \<le> k" "k < int F" and len: "length (Clock.frames v) = F"
    and pg: "frame_pages (Clock.frames v) ! nat k = Some (PageAccess.PageID a)"
    by (auto simp: Clock_inv_def)
  from k len have k': "nat k < length (Clock.frames v)" by simp
  with pg obtain fr where fr: "Clock.frames v ! nat k = Some fr" "PageFrame.PageID fr = PageAccess.PageID a"
    by auto
  have "index_at (Clock.frames v) k = Inr (Some fr)"
    using k len fr(1) by (simp add: index_at_def)
  then have "ClockAlgorithm_access a (v, s) =
       Inr (v\<lparr>Clock.frames := (Clock.frames v)[nat k := Some (fr\<lparr>Referenced := True\<rparr>)]\<rparr>, s)"
    using hit by (simp add: ClockAlgorithm_access_def)
  with fr k k' len show ?thesis by auto
qed

lemma ClockAlgorithm_access_free:
  assumes miss: "pageToFrame v (PageAccess.PageID a) = None"
    and len: "length (Clock.frames v) = F" and F: "totalFrames s = int F"
    and free: "None \<in> set (Clock.frames v)"
  shows "\<exists>e<F. Clock.frames v ! e = None \<and> (\<forall>l<e. Clock.frames v ! l \<noteq> None) \<and>
     ClockAlgorithm_access a (v, s) =
       Inr (v\<lparr>Clock.frames := (Clock.frames v)[e :=
                  Some \<lparr>PageID = PageAccess.PageID a, Referenced = True, LoadCount = 1\<rparr>],
              pageToFrame := (pageToFrame v)(PageAccess.PageID a \<mapsto> int e),
              Clock.pageFaults := Clock.pageFaults v + 1\<rparr>,
            s\<lparr>pageLoadCount := increment (pageLoadCount s) (PageAccess.PageID a)\<rparr>)"
proof -
  from emptyFrame_search_first(1) [OF len free]
  obtain e where e: "e < F" "emptyFrame_search (Clock.frames v) (int F) 0 = Inr (int e)"
    "Clock.frames v ! e = None" "\<forall>l<e. Clock.frames v ! l \<noteq> None"
    by blast
  have "ClockAlgorithm_access a (v, s) =
       Inr (v\<lparr>Clock.frames := (Clock.frames v)[e :=
                  Some \<lparr>PageID = PageAccess.PageID a, Referenced = True, LoadCount = 1\<rparr>],
              pageToFrame := (pageToFrame v)(PageAccess.PageID a \<mapsto> int e),
              Clock.pageFaults := Clock.pageFaults v + 1\<rparr>,
            s\<lparr>pageLoadCount := increment (pageLoadCount s) (PageAccess.PageID a)\<rparr>)"
    using miss e(1,2) len F by (simp add: ClockAlgorithm_access_def Let_def store_at_def)
  with e show ?thesis by blast
qed

lemma ClockAlgorithm_access_full:
  assumes miss: "pageToFrame v (PageAccess.PageID a) = None"
    and len: "length (Clock.frames v) = F" and F: "totalFrames s = int F"
    and full: "None \<notin> set (Clock.frames v)"
  shows "ClockAlgorithm_access a (v, s) =
     (case victim_loop (int F) (PageAccess.PageID a) (v\<lparr>Clock.pageFaults := Clock.pageFaults v + 1\<rparr>) of
        Inl e \<Rightarrow> Inl e
      | Inr v2 \<Rightarrow> Inr (v2, s\<lparr>pageLoadCount := increment (pageLoadCount s) (PageAccess.PageID a)\<rparr>))"
  using miss F emptyFrame_search_first(2) [OF len full]
  by (simp add: ClockAlgorithm_access_def Let_def)

lemma Clock_inv_dom:
  assumes "Clock_inv F v"
  shows "finite (dom (pageToFrame v))" and "card (dom (pageToFrame v)) \<le> F"
proof -
  let ?g = "\<lambda>k. the (frame_pages (Clock.frames v) ! k)"
  have sub: "dom (pageToFrame v) \<subseteq> ?g ` {..<F}"
  proof
    fix p assume "p \<in> dom (pageToFrame v)"
    then obtain k where "pageToFrame v p = Some k" by auto
    with assms have "0 \<le> k" "k < int F" "frame_pages (Clock.frames v) ! nat k = Some p"
      by (auto simp: Clock_inv_def)
    then have "nat k < F" "?g (nat k) = p" by auto
    then show "p \<in> ?g ` {..<F}" by blast
  qed
  then show "finite (dom (pageToFrame v))" by (rule finite_subset) simp
  have "card (dom (pageToFrame v)) \<le> card (?g ` {..<F})"
    using sub by (intro card_mono) simp_all
  also have "\<dots> \<le> card {..<F}" by (rule card_image_le) simp
  finally show "card (dom (pageToFrame v)) \<le> F" by simp
qed

lemma ClockAlgorithm_access_step:
  assumes inv: "Clock_inv F v" and F: "totalFrames s = int F"
  shows "\<exists>v' s'. ClockAlgorithm_access a (v, s) = Inr (v', s') \<and> Clock_inv F v' \<and>
     totalFrames s' = int F \<and>
     (if PageAccess.PageID a \<in> dom (pageToFrame v)
      then pageToFrame v' = pageToFrame v \<and> Clock.pageFaults v' = Clock.pageFaults v \<and> s' = s
      else Clock.pageFaults v' = Clock.pageFaults v + 1 \<and>
           s' = s\<lparr>pageLoadCount := increment (pageLoadCount s) (PageAccess.PageID a)\<rparr> \<and>
           PageAccess.PageID a \<in> dom (pageToFrame v') \<and>
           dom (pageToFrame v') \<subseteq> insert (PageAccess.PageID a) (dom (pageToFrame v)))"
proof -
  let ?q = "PageAccess.PageID a"
  let ?fs = "Clock.frames v"
  from inv have len: "length ?fs = F" and ptr: "0 \<le> clockPointer v" "clockPointer v < int F"
    and bij: "\<And>p k. pageToFrame v p = Some k \<longleftrightarrow>
       (0 \<le> k \<and> k < int F \<and> frame_pages ?fs ! nat k = Some p)"
    by (simp_all add: Clock_inv_def)
  show ?thesis
  proof (cases "pageToFrame v ?q")
    case (Some k)
    from ClockAlgorithm_access_hit [OF inv Some, of s] obtain fr where
      fr: "?fs ! nat k = Some fr" "PageFrame.PageID fr = ?q" "nat k < F"
      and acc: "ClockAlgorithm_access a (v, s) =
        Inr (v\<lparr>Clock.frames := ?fs[nat k := Some (fr\<lparr>Referenced := True\<rparr>)]\<rparr>, s)"
      by blast
    have "frame_pages (?fs[nat k := Some (fr\<lparr>Referenced := True\<rparr>)]) = frame_pages ?fs"
      using fr len by (intro frame_pages_same [of _ _ fr]) simp_all
    then have "Clock_inv F (v\<lparr>Clock.frames := ?fs[nat k := Some (fr\<lparr>Referenced := True\<rparr>)]\<rparr>)"
      using inv by (simp add: Clock_inv_def)
    with acc Some F show ?thesis by auto
  next
    case None
    then have notin: "?q \<notin> dom (pageToFrame v)" by auto
    have noq: "frame_pages ?fs ! k \<noteq> Some ?q" if "k < F" for k
      using bij [of ?q "int k"] None that by simp
    show ?thesis
    proof (cases "None \<in> set ?fs")
      case True
      from ClockAlgorithm_access_free [OF None len F True] obtain e where
        e: "e < F" "?fs ! e = None"
        and acc: "ClockAlgorithm_access a (v, s) =
         Inr (v\<lparr>Clock.frames := ?fs[e := Some \<lparr>PageID = ?q, Referenced = True, LoadCount = 1\<rparr>],
                pageToFrame := (pageToFrame v)(?q \<mapsto> int e),
                Clock.pageFaults := Clock.pageFaults v + 1\<rparr>,
              s\<lparr>pageLoadCount := increment (pageLoadCount s) ?q\<rparr>)"
        by blast
      have "((pageToFrame v)(?q \<mapsto> int e)) p = Some k \<longleftrightarrow>
          (0 \<le> k \<and> k < int F \<and> (frame_pages ?fs)[e := Some ?q] ! nat k = Some p)" for p k
      proof (cases "p = ?q")
        case True
        show ?thesis
        proof (cases "k = int e")
          case True
          with \<open>p = ?q\<close> e(1) len show ?thesis by simp
        next
          case False
          have "\<not> (0 \<le> k \<and> k < int F \<and> (frame_pages ?fs)[e := Some ?q] ! nat k = Some ?q)"
          proof
            assume k: "0 \<le> k \<and> k < int F \<and> (frame_pages ?fs)[e := Some ?q] ! nat k = Some ?q"
            with False have "nat k \<noteq> e" "nat k < F" by auto
            with k noq [of "nat k"] show False by simp
          qed
          with \<open>p = ?q\<close> False show ?thesis by simp
        qed
      next
        case False
        have "frame_pages ?fs ! e = None" using e len by simp
        then have "(frame_pages ?fs)[e := Some ?q] ! nat k = Some p \<longleftrightarrow> frame_pages ?fs ! nat k = Some p"
          using False e(1) len by (cases "nat k = e") auto
        with False bij [of p k] show ?thesis by simp
      qed
      then have "Clock_inv F (v\<lparr>Clock.frames := ?fs[e := Some \<lparr>PageID = ?q, Referenced = True, LoadCount = 1\<rparr>],
                pageToFrame := (pageToFrame v)(?q \<mapsto> int e),
                Clock.pageFaults := Clock.pageFaults v + 1\<rparr>)"
        using len ptr by (simp add: Clock_inv_def)
      with acc notin F show ?thesis by auto
    next
      case False
      have F0: "0 < F" using ptr by simp
      let ?v1 = "v\<lparr>Clock.pageFaults := Clock.pageFaults v + 1\<rparr>"
      from victim_loop_pages [of ?v1 F "int F" ?q] len F0 ptr False
      obtain v' r where
        vl: "victim_loop (int F) ?q ?v1 = Inr v'" and r: "r < F"
        and pages: "frame_pages (Clock.frames v') = (frame_pages ?fs)[r := Some ?q]"
        and len': "length (Clock.frames v') = F"
        and ptf: "pageToFrame v' = ((pageToFrame v)(the (frame_pages ?fs ! r) := None))(?q \<mapsto> int r)"
        and ptr': "0 \<le> clockPointer v'" "clockPointer v' < int F"
        and pf: "Clock.pageFaults v' = Clock.pageFaults v + 1"
        by auto
      have acc: "ClockAlgorithm_access a (v, s) =
          Inr (v', s\<lparr>pageLoadCount := increment (pageLoadCount s) ?q\<rparr>)"
        using ClockAlgorithm_access_full [OF None len F False] vl by simp
      have "?fs ! r \<in> set ?fs" using r len by simp
      with False obtain fr where fr: "?fs ! r = Some fr" by (cases "?fs ! r") auto
      define old where "old = PageFrame.PageID fr"
      have old: "frame_pages ?fs ! r = Some old" using fr r len by (simp add: old_def)
      then have oldr: "pageToFrame v old = Some (int r)" using bij [of old "int r"] r by simp
      have oq: "old \<noteq> ?q" using oldr None by auto
      have "pageToFrame v' p = Some k \<longleftrightarrow>
          (0 \<le> k \<and> k < int F \<and> frame_pages (Clock.frames v') ! nat k = Some p)" for p k
      proof (cases "p = ?q")
        case True
        show ?thesis
        proof (cases "k = int r")
          case True
          with \<open>p = ?q\<close> r len show ?thesis unfolding ptf pages by simp
        next
          case False
          have "\<not> (0 \<le> k \<and> k < int F \<and> (frame_pages ?fs)[r := Some ?q] ! nat k = Some ?q)"
          proof
            assume k: "0 \<le> k \<and> k < int F \<and> (frame_pages ?fs)[r := Some ?q] ! nat k = Some ?q"
            with False have "nat k \<noteq> r" "nat k < F" by auto
            with k noq [of "nat k"] show False by simp
          qed
          with \<open>p = ?q\<close> False show ?thesis unfolding ptf pages by simp
        qed
      next
        case pq: False
        show ?thesis
        proof (cases "p = old")
          case True
          have "\<not> (0 \<le> k \<and> k < int F \<and> (frame_pages ?fs)[r := Some ?q] ! nat k = Some old)"
          proof (cases "nat k = r")
            case True
            then show ?thesis using r len oq by auto
          next
            case False
            show ?thesis
            proof
              assume "0 \<le> k \<and> k < int F \<and> (frame_pages ?fs)[r := Some ?q] ! nat k = Some old"
              with False have "0 \<le> k" "k < int F" "frame_pages ?fs ! nat k = Some old" by auto
              with bij [of old k] have "pageToFrame v old = Some k" by simp
              with oldr False show False by simp
            qed
          qed
          with True pq show ?thesis unfolding ptf pages old by simp
        next
          case po: False
          have "(frame_pages ?fs)[r := Some ?q] ! nat k = Some p \<longleftrightarrow> frame_pages ?fs ! nat k = Some p"
            using pq po old r len by (cases "nat k = r") auto
          with pq po bij [of p k] show ?thesis unfolding ptf pages old by simp
        qed
      qed
      then have inv': "Clock_inv F v'" using len' ptr' by (simp add: Clock_inv_def)
      have "?q \<in> dom (pageToFrame v')" "dom (pageToFrame v') \<subseteq> insert ?q (dom (pageToFrame v))"
        unfolding ptf by auto
      with acc inv' pf notin F show ?thesis by auto
    qed
  qed
qed

section \<open>Both policies as demand paging\<close>

text \<open>
  A run of \<open>ClockAlgorithm\<close> is a demand-paging execution with \<open>F\<close> frames, and so is
  a run of \<open>OptimalAlgorithm\<close>; the latter has no more faults than any of them.
\<close>

lemma ClockAlgorithm_loop_paging:
  "Clock_inv F v \<Longrightarrow> totalFrames s = int F \<Longrightarrow>
   \<exists>v' s' n. ClockAlgorithm_loop rest (v, s) = Inr (v', s') \<and>
     Clock.pageFaults v' = Clock.pageFaults v + int n \<and>
     paging F (dom (pageToFrame v)) (map PageAccess.PageID rest) n"
proof (induction rest arbitrary: v s)
  case Nil
  have "paging F (dom (pageToFrame v)) [] 0" by (rule paging_Nil)
  then show ?case by (intro exI [of _ v] exI [of _ s] exI [of _ 0]) simp
next
  case (Cons a rest)
  let ?q = "PageAccess.PageID a"
  let ?S = "dom (pageToFrame v)"
  let ?qs = "map PageAccess.PageID rest"
  from ClockAlgorithm_access_step [OF Cons.prems, of a]
  obtain v1 s1 where
    acc: "ClockAlgorithm_access a (v, s) = Inr (v1, s1)"
    and inv1: "Clock_inv F v1" and F1: "totalFrames s1 = int F"
    and eff: "if ?q \<in> ?S
      then pageToFrame v1 = pageToFrame v \<and> Clock.pageFaults v1 = Clock.pageFaults v \<and> s1 = s
      else Clock.pageFaults v1 = Clock.pageFaults v + 1 \<and>
           s1 = s\<lparr>pageLoadCount := increment (pageLoadCount s) ?q\<rparr> \<and>
           ?q \<in> dom (pageToFrame v1) \<and> dom (pageToFrame v1) \<subseteq> insert ?q ?S"
    by blast
  have loop: "ClockAlgorithm_loop (a # rest) (v, s) = ClockAlgorithm_loop rest (v1, s1)"
    using acc by simp
  from Cons.IH [OF inv1 F1] obtain v' s' n where
    res: "ClockAlgorithm_loop rest (v1, s1) = Inr (v', s')"
    and cnt: "Clock.pageFaults v' = Clock.pageFaults v1 + int n"
    and run: "paging F (dom (pageToFrame v1)) ?qs n"
    by blast
  show ?case
  proof (cases "?q \<in> ?S")
    case True
    with eff have same: "pageToFrame v1 = pageToFrame v" "Clock.pageFaults v1 = Clock.pageFaults v"
      by simp_all
    from run True have "paging F ?S (?q # ?qs) n" by (intro paging_hit) (simp_all add: same)
    with res cnt show ?thesis unfolding loop
      by (intro exI [of _ v'] exI [of _ s'] exI [of _ n]) (simp add: same)
  next
    case False
    with eff have pf: "Clock.pageFaults v1 = Clock.pageFaults v + 1"
      and sub: "?q \<in> dom (pageToFrame v1)" "dom (pageToFrame v1) \<subseteq> insert ?q ?S"
      by simp_all
    from sub False run Clock_inv_dom [OF inv1] have "paging F ?S (?q # ?qs) (Suc n)"
      by (intro paging_fault [of ?q ?S "dom (pageToFrame v1)"])
    with res cnt pf show ?thesis unfolding loop
      by (intro exI [of _ v'] exI [of _ s'] exI [of _ "Suc n"]) simp
  qed
qed

lemma OptimalAlgorithm_bound:
  assumes F: "1 \<le> totalFrames s" and run: "paging (nat (totalFrames s)) {} (trace s) m"
  shows "\<exists>n. faults_of (OptimalAlgorithm s) = Some n \<and> n \<le> int m"
proof -
  let ?F = "nat (totalFrames s)"
  obtain v0 s0 where init: "OptimalAlgorithm_init s = (v0, s0)" by (cases "OptimalAlgorithm_init s")
  then have v0: "OPT.frames v0 = []" "OPT.pageFaults v0 = 0" "OPT_inv ?F v0"
    and s0: "totalFrames s0 = int ?F"
    using F by (auto simp: OptimalAlgorithm_init_def OPT_inv_def)
  have F': "1 \<le> ?F" using F by simp
  from run have "paging ?F (set (OPT.frames v0)) (map PageAccess.PageID (accesses s)) m"
    by (simp add: v0 trace_def)
  from OptimalAlgorithm_loop_optimal [OF F' v0(3) s0 _ this, of 0 "accesses s"]
  obtain v' s' where "OptimalAlgorithm_loop (pageAccessPositions 0 (accesses s) Map.empty) 0
      (accesses s) (v0, s0) = Inr (v', s')" "OPT.pageFaults v' \<le> int m"
    using v0(2) by auto
  then show ?thesis using F
    by (simp add: faults_of_def OptimalAlgorithm_def OptimalAlgorithm_run_def init)
qed

lemma OptimalAlgorithm_is_paging:
  assumes F: "1 \<le> totalFrames s"
  shows "\<exists>n. faults_of (OptimalAlgorithm s) = Some (int n) \<and> paging (nat (totalFrames s)) {} (trace s) n"
proof -
  let ?F = "nat (totalFrames s)"
  obtain v0 s0 where init: "OptimalAlgorithm_init s = (v0, s0)" by (cases "OptimalAlgorithm_init s")
  then have v0: "OPT.frames v0 = []" "OPT.pageFaults v0 = 0" "OPT_inv ?F v0"
    and s0: "totalFrames s0 = int ?F"
    using F by (auto simp: OptimalAlgorithm_init_def OPT_inv_def)
  have F': "1 \<le> ?F" using F by simp
  from OptimalAlgorithm_loop_paging [OF F' v0(3) s0, of "accesses s" 0 "accesses s"]
  obtain v' s' n where "OptimalAlgorithm_loop (pageAccessPositions 0 (accesses s) Map.empty) 0
      (accesses s) (v0, s0) = Inr (v', s')" "OPT.pageFaults v' = int n"
      "paging ?F {} (trace s) n"
    using v0(1,2) by (auto simp: trace_def)
  then show ?thesis using F
    by (intro exI [of _ n]) (simp add: faults_of_def OptimalAlgorithm_def OptimalAlgorithm_run_def init)
qed

lemma ClockAlgorithm_is_paging:
  assumes F: "1 \<le> totalFrames s"
  shows "\<exists>n. faults_of (ClockAlgorithm s) = Some (int n) \<and> paging (nat (totalFrames s)) {} (trace s) n"
proof -
  let ?F = "nat (totalFrames s)"
  obtain v0 s0 where init: "ClockAlgorithm_init s = (v0, s0)" by (cases "ClockAlgorithm_init s")
  then have v0: "pageToFrame v0 = Map.empty" "Clock.pageFaults v0 = 0" "Clock_inv ?F v0"
    and s0: "totalFrames s0 = int ?F"
    using F by (auto simp: ClockAlgorithm_init_def Clock_inv_def frame_pages_def)
  from ClockAlgorithm_loop_paging [OF v0(3) s0, of "accesses s"]
  obtain v' s' n where "ClockAlgorithm_loop (accesses s) (v0, s0) = Inr (v', s')"
    "Clock.pageFaults v' = int n" "paging ?F {} (trace s) n"
    using v0(1,2) by (auto simp: trace_def)
  then show ?thesis using F
    by (intro exI [of _ n]) (simp add: faults_of_def ClockAlgorithm_def ClockAlgorithm_run_def init)
qed

section \<open>Invariants of the two main loops\<close>

text \<open>
  A property that every access carries from index \<open>j\<close> to index \<open>j + 1\<close> holds after
  any stretch of the loop, which does not panic on the way.
\<close>

lemma OptimalAlgorithm_loop_invariant:
  assumes step: "\<And>j v s. j < length accs \<Longrightarrow> I j v s \<Longrightarrow>
      \<exists>v' s'. OptimalAlgorithm_access positionsOf (int j) (accs ! j) (v, s) = Inr (v', s') \<and> I (Suc j) v' s'"
  shows "I k v s \<Longrightarrow> k + n \<le> length accs \<Longrightarrow>
     \<exists>v' s'. OptimalAlgorithm_loop positionsOf (int k) (take n (drop k accs)) (v, s) = Inr (v', s') \<and>
        I (k + n) v' s'"
proof (induction n arbitrary: k v s)
  case 0
  then show ?case by simp
next
  case (Suc n)
  then have k: "k < length accs" by simp
  from step [OF k Suc.prems(1)] obtain v1 s1 where
    acc: "OptimalAlgorithm_access positionsOf (int k) (accs ! k) (v, s) = Inr (v1, s1)"
    and I1: "I (Suc k) v1 s1" by blast
  have tk: "take (Suc n) (drop k accs) = accs ! k # take n (drop (Suc k) accs)"
    using k by (simp add: Cons_nth_drop_Suc [symmetric])
  from Suc.IH [OF I1] Suc.prems(2) obtain v' s' where
    "OptimalAlgorithm_loop positionsOf (int (Suc k)) (take n (drop (Suc k) accs)) (v1, s1) = Inr (v', s')"
    "I (Suc k + n) v' s'" by auto
  then show ?case unfolding tk using acc by (simp add: add.commute)
qed

lemma ClockAlgorithm_loop_invariant:
  assumes step: "\<And>j v s. j < length accs \<Longrightarrow> I j v s \<Longrightarrow>
      \<exists>v' s'. ClockAlgorithm_access (accs ! j) (v, s) = Inr (v', s') \<and> I (Suc j) v' s'"
  shows "I k v s \<Longrightarrow> k + n \<le> length accs \<Longrightarrow>
     \<exists>v' s'. ClockAlgorithm_loop (take n (drop k accs)) (v, s) = Inr (v', s') \<and> I (k + n) v' s'"
proof (induction n arbitrary: k v s)
  case 0
  then show ?case by simp
next
  case (Suc n)
  then have k: "k < length accs" by simp
  from step [OF k Suc.prems(1)] obtain v1 s1 where
    acc: "ClockAlgorithm_access (accs ! k) (v, s) = Inr (v1, s1)"
    and I1: "I (Suc k) v1 s1" by blast
  have tk: "take (Suc n) (drop k accs) = accs ! k # take n (drop (Suc k) accs)"
    using k by (simp add: Cons_nth_drop_Suc [symmetric])
  from Suc.IH [OF I1] Suc.prems(2) obtain v' s' where
    "ClockAlgorithm_loop (take n (drop (Suc k) accs)) (v1, s1) = Inr (v', s')"
    "I (Suc k + n) v' s'" by auto
  then show ?case unfolding tk using acc by simp
qed

lemma total_loads_increment:
  assumes "finite (dom m)"
  shows "finite (dom (increment m q))" and "total_loads (increment m q) = total_loads m + 1"
proof -
  show fin: "finite (dom (increment m q))" using assms by (simp add: increment_def)
  show "total_loads (increment m q) = total_loads m + 1"
  proof (cases "m q")
    case None
    then have "q \<notin> dom m" by auto
    moreover have "dom (increment m q) = insert q (dom m)" by (simp add: increment_def)
    moreover have "(\<Sum>p\<in>dom m. the (increment m q p)) = (\<Sum>p\<in>dom m. the (m p))"
      using \<open>q \<notin> dom m\<close> by (intro sum.cong) (auto simp: increment_def)
    ultimately show ?thesis using assms None by (simp add: total_loads_def) (simp add: increment_def)
  next
    case (Some c)
    then have q: "q \<in> dom m" by auto
    then have d: "dom (increment m q) = dom m" by (auto simp: increment_def)
    have "(\<Sum>p\<in>dom m. the (increment m q p)) =
        the (increment m q q) + (\<Sum>p\<in>dom m - {q}. the (increment m q p))"
      using assms q by (rule sum.remove)
    also have "(\<Sum>p\<in>dom m - {q}. the (increment m q p)) = (\<Sum>p\<in>dom m - {q}. the (m p))"
      by (intro sum.cong) (auto simp: increment_def)
    also have "the (increment m q q) = the (m q) + 1" using Some by (simp add: increment_def)
    finally have "(\<Sum>p\<in>dom m. the (increment m q p)) =
        (the (m q) + (\<Sum>p\<in>dom m - {q}. the (m p))) + 1" by simp
    also have "the (m q) + (\<Sum>p\<in>dom m - {q}. the (m p)) = (\<Sum>p\<in>dom m. the (m p))"
      using assms q by (rule sum.remove [symmetric])
    finally show ?thesis by (simp add: total_loads_def d)
  qed
qed

section \<open>As many frames as distinct pages\<close>

text \<open>
  When the clock policy has no empty frame, at least \<open>F\<close> pages are resident. And a
  page that occurs at position \<open>j\<close> for the first time shows that fewer pages occur
  before \<open>j\<close> than in the whole trace.
\<close>

lemma Clock_inv_full_card:
  assumes inv: "Clock_inv F v" and full: "None \<notin> set (Clock.frames v)"
  shows "F \<le> card (dom (pageToFrame v))"
proof -
  let ?g = "\<lambda>k. the (frame_pages (Clock.frames v) ! k)"
  from inv have len: "length (Clock.frames v) = F"
    and bij: "\<And>p k. pageToFrame v p = Some k \<longleftrightarrow>
       (0 \<le> k \<and> k < int F \<and> frame_pages (Clock.frames v) ! nat k = Some p)"
    by (simp_all add: Clock_inv_def)
  have at: "pageToFrame v (?g k) = Some (int k)" if "k < F" for k
  proof -
    have "Clock.frames v ! k \<in> set (Clock.frames v)" using that len by simp
    with full obtain fr where fr: "Clock.frames v ! k = Some fr"
      by (cases "Clock.frames v ! k") auto
    define p where "p = PageFrame.PageID fr"
    have P: "frame_pages (Clock.frames v) ! k = Some p" using that len fr by (simp add: p_def)
    then have g: "?g k = p" by simp
    from P bij [of p "int k"] that have "pageToFrame v p = Some (int k)" by simp
    then show ?thesis by (simp only: g)
  qed
  have "inj_on ?g {..<F}"
  proof (rule inj_onI)
    fix k k' assume k: "k \<in> {..<F}" "k' \<in> {..<F}" and eq: "?g k = ?g k'"
    have "Some (int k) = pageToFrame v (?g k)" using at [of k] k(1) by simp
    also have "\<dots> = pageToFrame v (?g k')" by (simp only: eq)
    also have "\<dots> = Some (int k')" using at [of k'] k(2) by simp
    finally show "k = k'" by simp
  qed
  moreover have "?g ` {..<F} \<subseteq> dom (pageToFrame v)" using at by auto
  ultimately have "card {..<F} \<le> card (dom (pageToFrame v))"
    using Clock_inv_dom(1) [OF inv] by (intro card_inj_on_le)
  then show ?thesis by simp
qed

lemma new_page_card:
  assumes "j < length qs" and "qs ! j \<notin> set (take j qs)"
  shows "card (set (take j qs)) < card (set qs)"
proof -
  have "set (take j qs) \<subseteq> set qs" by (rule set_take_subset)
  moreover have "qs ! j \<in> set qs" using assms(1) by simp
  ultimately have "set (take j qs) \<subset> set qs" using assms(2) by blast
  then show ?thesis by (intro psubset_card_mono) simp_all
qed

lemma seen_Suc: "j < length qs \<Longrightarrow> set (take (Suc j) qs) = insert (qs ! j) (set (take j qs))"
  by (simp add: take_Suc_conv_app_nth)

lemma OptimalAlgorithm_enough_frames:
  assumes F: "1 \<le> totalFrames s" and enough: "int (card (set (trace s))) \<le> totalFrames s"
    and k: "k \<le> length (accesses s)"
  shows "\<exists>v s'. OptimalAlgorithm_before s k = Inr (v, s') \<and>
     OPT_inv (nat (totalFrames s)) v \<and> totalFrames s' = totalFrames s \<and>
     set (OPT.frames v) = set (take k (trace s)) \<and>
     pageLoadCount s' = (\<lambda>p. if p \<in> set (take k (trace s)) then Some 1 else None) \<and>
     OPT.pageFaults v = int (card (set (take k (trace s))))"
proof -
  let ?F = "nat (totalFrames s)"
  let ?qs = "trace s"
  let ?pos = "pageAccessPositions 0 (accesses s) Map.empty"
  define I where "I = (\<lambda>(j::nat) (v::OPT) (s'::Simulator).
     OPT_inv ?F v \<and> totalFrames s' = int ?F \<and> set (OPT.frames v) = set (take j ?qs) \<and>
     pageLoadCount s' = (\<lambda>p. if p \<in> set (take j ?qs) then Some 1 else None) \<and>
     OPT.pageFaults v = int (card (set (take j ?qs))))"
  have F': "1 \<le> ?F" using F by simp
  have step: "\<exists>v' s'. OptimalAlgorithm_access ?pos (int j) (accesses s ! j) (v, t) = Inr (v', s') \<and>
      I (Suc j) v' s'" if j: "j < length (accesses s)" and I: "I j v t" for j v t
  proof -
    let ?q = "PageAccess.PageID (accesses s ! j)"
    have q: "?qs ! j = ?q" and j': "j < length ?qs" using j by (simp_all add: trace_def)
    from I have inv: "OPT_inv ?F v" and Ft: "totalFrames t = int ?F"
      and fr: "set (OPT.frames v) = set (take j ?qs)"
      and plc: "pageLoadCount t = (\<lambda>p. if p \<in> set (take j ?qs) then Some 1 else None)"
      and cnt: "OPT.pageFaults v = int (card (set (take j ?qs)))"
      by (simp_all add: I_def)
    from OptimalAlgorithm_access_step [OF inv Ft F' j] obtain v' s' where
      acc: "OptimalAlgorithm_access ?pos (int j) (accesses s ! j) (v, t) = Inr (v', s')"
      and inv': "OPT_inv ?F v'" and Ft': "totalFrames s' = int ?F"
      and eff: "if ?q \<in> set (OPT.frames v) then v' = v \<and> s' = t
        else OPT.pageFaults v' = OPT.pageFaults v + 1 \<and>
             s' = t\<lparr>pageLoadCount := increment (pageLoadCount t) ?q\<rparr> \<and>
             (if length (OPT.frames v) < ?F then OPT.frames v' = OPT.frames v @ [?q]
              else \<exists>i<length (OPT.frames v). OPT.frames v' = (OPT.frames v)[i := ?q] \<and>
                (\<forall>x\<in>set (OPT.frames v). not_before (OPT.frames v ! i) x
                   (drop (Suc j) (map PageAccess.PageID (accesses s)))))"
      by blast
    have "I (Suc j) v' s'"
    proof (cases "?q \<in> set (OPT.frames v)")
      case True
      with eff have "v' = v" "s' = t" by simp_all
      moreover have "set (take (Suc j) ?qs) = set (take j ?qs)"
        using True fr seen_Suc [OF j'] q by auto
      ultimately show ?thesis using I by (simp add: I_def)
    next
      case False
      then have new: "?qs ! j \<notin> set (take j ?qs)" using fr q by simp
      have "length (OPT.frames v) = card (set (take j ?qs))"
        using OPT_inv_card [OF inv] fr by simp
      also have "\<dots> < card (set ?qs)" using j' new by (rule new_page_card)
      finally have free: "length (OPT.frames v) < ?F" using enough by simp
      with eff False have v': "OPT.pageFaults v' = OPT.pageFaults v + 1"
        "OPT.frames v' = OPT.frames v @ [?q]"
        and s': "s' = t\<lparr>pageLoadCount := increment (pageLoadCount t) ?q\<rparr>"
        by simp_all
      have seen: "set (take (Suc j) ?qs) = insert ?q (set (take j ?qs))"
        using seen_Suc [OF j'] q by simp
      have "pageLoadCount s' = (\<lambda>p. if p \<in> set (take (Suc j) ?qs) then Some 1 else None)"
        using new q by (auto simp: s' plc seen increment_def fun_eq_iff)
      moreover have "OPT.pageFaults v' = int (card (set (take (Suc j) ?qs)))"
        using new q by (simp add: v' cnt seen)
      moreover have "set (OPT.frames v') = set (take (Suc j) ?qs)"
        by (simp add: v' fr seen)
      ultimately show ?thesis using inv' Ft' by (simp add: I_def)
    qed
    with acc show ?thesis by blast
  qed
  obtain v0 s0 where init: "OptimalAlgorithm_init s = (v0, s0)" by (cases "OptimalAlgorithm_init s")
  then have "I 0 v0 s0"
    using F by (auto simp: OptimalAlgorithm_init_def OPT_inv_def I_def)
  from OptimalAlgorithm_loop_invariant [of "accesses s" I ?pos, OF step this, of k] k
  obtain v' s' where "OptimalAlgorithm_loop ?pos 0 (take k (accesses s)) (v0, s0) = Inr (v', s')"
    "I k v' s'" by auto
  then show ?thesis using F
    by (intro exI [of _ v'] exI [of _ s']) (simp add: OptimalAlgorithm_before_def init I_def)
qed

text \<open>
  With at least as many frames as distinct pages, the state of each policy before the
  access at index \<open>k\<close>: the pages seen so far are exactly the resident ones, each
  has been loaded once, and the fault count is their number.
\<close>

lemma ClockAlgorithm_enough_frames:
  assumes F: "1 \<le> totalFrames s" and enough: "int (card (set (trace s))) \<le> totalFrames s"
    and k: "k \<le> length (accesses s)"
  shows "\<exists>v s'. ClockAlgorithm_before s k = Inr (v, s') \<and>
     Clock_inv (nat (totalFrames s)) v \<and> totalFrames s' = totalFrames s \<and>
     dom (pageToFrame v) = set (take k (trace s)) \<and>
     pageLoadCount s' = (\<lambda>p. if p \<in> set (take k (trace s)) then Some 1 else None) \<and>
     Clock.pageFaults v = int (card (set (take k (trace s))))"
proof -
  let ?F = "nat (totalFrames s)"
  let ?qs = "trace s"
  define I where "I = (\<lambda>(j::nat) (v::Clock) (s'::Simulator).
     Clock_inv ?F v \<and> totalFrames s' = int ?F \<and> dom (pageToFrame v) = set (take j ?qs) \<and>
     pageLoadCount s' = (\<lambda>p. if p \<in> set (take j ?qs) then Some 1 else None) \<and>
     Clock.pageFaults v = int (card (set (take j ?qs))))"
  have step: "\<exists>v' s'. ClockAlgorithm_access (accesses s ! j) (v, t) = Inr (v', s') \<and>
      I (Suc j) v' s'" if j: "j < length (accesses s)" and I: "I j v t" for j v t
  proof -
    let ?q = "PageAccess.PageID (accesses s ! j)"
    have q: "?qs ! j = ?q" and j': "j < length ?qs" using j by (simp_all add: trace_def)
    from I have inv: "Clock_inv ?F v" and Ft: "totalFrames t = int ?F"
      and fr: "dom (pageToFrame v) = set (take j ?qs)"
      and plc: "pageLoadCount t = (\<lambda>p. if p \<in> set (take j ?qs) then Some 1 else None)"
      and cnt: "Clock.pageFaults v = int (card (set (take j ?qs)))"
      by (simp_all add: I_def)
    from inv have len: "length (Clock.frames v) = ?F" by (simp add: Clock_inv_def)
    from ClockAlgorithm_access_step [OF inv Ft, of "accesses s ! j"] obtain v' s' where
      acc: "ClockAlgorithm_access (accesses s ! j) (v, t) = Inr (v', s')"
      and inv': "Clock_inv ?F v'" and Ft': "totalFrames s' = int ?F"
      and eff: "if ?q \<in> dom (pageToFrame v)
        then pageToFrame v' = pageToFrame v \<and> Clock.pageFaults v' = Clock.pageFaults v \<and> s' = t
        else Clock.pageFaults v' = Clock.pageFaults v + 1 \<and>
             s' = t\<lparr>pageLoadCount := increment (pageLoadCount t) ?q\<rparr> \<and>
             ?q \<in> dom (pageToFrame v') \<and> dom (pageToFrame v') \<subseteq> insert ?q (dom (pageToFrame v))"
      by blast
    have "I (Suc j) v' s'"
    proof (cases "?q \<in> dom (pageToFrame v)")
      case True
      with eff have same: "pageToFrame v' = pageToFrame v" "Clock.pageFaults v' = Clock.pageFaults v"
        "s' = t" by simp_all
      have "set (take (Suc j) ?qs) = set (take j ?qs)"
        using True fr seen_Suc [OF j'] q by auto
      then show ?thesis using inv' Ft' fr plc cnt by (simp add: I_def same)
    next
      case False
      then have new: "?qs ! j \<notin> set (take j ?qs)" and miss: "pageToFrame v ?q = None"
        using fr q by auto
      have free: "None \<in> set (Clock.frames v)"
      proof (rule ccontr)
        assume "None \<notin> set (Clock.frames v)"
        from Clock_inv_full_card [OF inv this] have "?F \<le> card (set (take j ?qs))" by (simp add: fr)
        also have "\<dots> < card (set ?qs)" using j' new by (rule new_page_card)
        finally show False using enough by simp
      qed
      from ClockAlgorithm_access_free [OF miss len Ft free] acc
      obtain e where "pageToFrame v' = (pageToFrame v)(?q \<mapsto> int e)" by auto
      then have dom': "dom (pageToFrame v') = insert ?q (dom (pageToFrame v))" by simp
      from eff False have v': "Clock.pageFaults v' = Clock.pageFaults v + 1"
        and s': "s' = t\<lparr>pageLoadCount := increment (pageLoadCount t) ?q\<rparr>"
        by simp_all
      have seen: "set (take (Suc j) ?qs) = insert ?q (set (take j ?qs))"
        using seen_Suc [OF j'] q by simp
      have "pageLoadCount s' = (\<lambda>p. if p \<in> set (take (Suc j) ?qs) then Some 1 else None)"
        using new q by (auto simp: s' plc seen increment_def fun_eq_iff)
      moreover have "Clock.pageFaults v' = int (card (set (take (Suc j) ?qs)))"
        using new q by (simp add: v' cnt seen)
      moreover have "dom (pageToFrame v') = set (take (Suc j) ?qs)"
        by (simp add: dom' fr seen)
      ultimately show ?thesis using inv' Ft' by (simp add: I_def)
    qed
    with acc show ?thesis by blast
  qed
  obtain v0 s0 where init: "ClockAlgorithm_init s = (v0, s0)" by (cases "ClockAlgorithm_init s")
  then have "I 0 v0 s0"
    using F by (auto simp: ClockAlgorithm_init_def Clock_inv_def I_def frame_pages_def)
  from ClockAlgorithm_loop_invariant [of "accesses s" I, OF step this, of k] k
  obtain v' s' where "ClockAlgorithm_loop (take k (accesses s)) (v0, s0) = Inr (v', s')"
    "I k v' s'" by auto
  then show ?thesis using F
    by (intro exI [of _ v'] exI [of _ s']) (simp add: ClockAlgorithm_before_def init I_def)
qed

text \<open>
  Under the invariant of the clock policy, the pages held by the frames are exactly the
  keys of \<open>pageToFrame\<close>.
\<close>

lemma resident_pages_frame_pages:
  "resident_pages fs = {p. Some p \<in> set (frame_pages fs)}"
proof -
  have "p \<in> resident_pages fs \<longleftrightarrow> Some p \<in> set (frame_pages fs)" for p
  proof
    assume "p \<in> resident_pages fs"
    then obtain f where "f \<in> set fs" "map_option PageFrame.PageID f \<noteq> None"
      "p = the (map_option PageFrame.PageID f)"
      by (auto simp: resident_pages_def List.map_filter_def)
    then show "Some p \<in> set (frame_pages fs)" by (force simp: frame_pages_def)
  next
    assume "Some p \<in> set (frame_pages fs)"
    then obtain f where "f \<in> set fs" "map_option PageFrame.PageID f = Some p"
      unfolding frame_pages_def set_map by (metis imageE)
    then show "p \<in> resident_pages fs"
      by (force simp: resident_pages_def List.map_filter_def)
  qed
  then show ?thesis by auto
qed

lemma Clock_inv_resident:
  assumes inv: "Clock_inv F v"
  shows "resident_pages (Clock.frames v) = dom (pageToFrame v)"
proof -
  let ?P = "frame_pages (Clock.frames v)"
  from inv have len: "length ?P = F"
    and bij: "\<And>p k. pageToFrame v p = Some k \<longleftrightarrow>
       (0 \<le> k \<and> k < int F \<and> ?P ! nat k = Some p)"
    by (simp_all add: Clock_inv_def frame_pages_def)
  have "Some p \<in> set ?P \<longleftrightarrow> p \<in> dom (pageToFrame v)" for p
  proof
    assume "Some p \<in> set ?P"
    then obtain i where i: "i < F" "?P ! i = Some p" using len by (auto simp: in_set_conv_nth)
    then have "pageToFrame v p = Some (int i)" using bij [of p "int i"] by simp
    then show "p \<in> dom (pageToFrame v)" by auto
  next
    assume "p \<in> dom (pageToFrame v)"
    then obtain k where "pageToFrame v p = Some k" by auto
    with bij [of p k] have "nat k < F" "?P ! nat k = Some p" by auto
    then show "Some p \<in> set ?P" using len by (metis nth_mem)
  qed
  then show ?thesis by (auto simp: resident_pages_frame_pages)
qed

section \<open>The victim scan of ClockAlgorithm\<close>

text \<open>
  The loop cut off after \<open>n\<close> frames agrees with the loop wherever it gives a result,
  and more frames never change a result.
\<close>

lemma victim_loop_bounded_sound:
  "victim_loop_bounded n nframes q v = Some r \<Longrightarrow> victim_loop nframes q v = r"
proof (induction n arbitrary: v)
  case 0
  then show ?case by (simp add: victim_loop_bounded.simps)
next
  case (Suc n)
  show ?case
    using Suc.prems
    by (subst victim_loop.simps)
       (auto simp: victim_loop_bounded.simps split: sum.splits option.splits if_splits
          dest: Suc.IH)
qed

lemma victim_loop_bounded_mono:
  "victim_loop_bounded n nframes q v = Some r \<Longrightarrow> n \<le> m \<Longrightarrow>
   victim_loop_bounded m nframes q v = Some r"
proof (induction n arbitrary: v m)
  case 0
  then show ?case by (simp add: victim_loop_bounded.simps)
next
  case (Suc n)
  then obtain m' where m: "m = Suc m'" "n \<le> m'" by (cases m) auto
  show ?case
    using Suc.prems(1) unfolding m(1)
    by (auto simp: victim_loop_bounded.simps split: sum.splits option.splits if_splits
          dest: Suc.IH [OF _ m(2)])
qed

lemma second_chance_idem [simp]: "second_chance (second_chance f) = second_chance f"
  by (cases f) (simp_all add: second_chance_def)

lemma is_referenced_second_chance [simp]: "\<not> is_referenced (second_chance f)"
  by (cases f) (simp_all add: second_chance_def is_referenced_def)

lemma length_sweep [simp]: "length (sweep d h fs) = length fs"
  by (induction d arbitrary: h fs) simp_all

lemma mod_step: "(Suc h mod F + e) mod F = (h + Suc e) mod (F::nat)"
  by (simp add: mod_add_left_eq)

lemma mod_around:
  fixes h e F :: nat
  assumes "h < F" "0 < e" "e < F"
  shows "(h + e) mod F \<noteq> h"
proof
  assume "(h + e) mod F = h"
  moreover have "h mod F = h" using assms(1) by simp
  ultimately have "(h + e) mod F = h mod F" by simp
  then have "F dvd (h + e) - h" by (subst (asm) mod_eq_dvd_iff_nat) simp_all
  then have "F dvd e" by simp
  with assms(2,3) show False by (auto dest: dvd_imp_le)
qed

text \<open>The frames passed are exactly those at circular distance less than \<open>d\<close>.\<close>

lemma sweep_nth:
  "k < length fs \<Longrightarrow> h < length fs \<Longrightarrow>
   sweep d h fs ! k =
     (if \<exists>e<d. k = (h + e) mod length fs then second_chance (fs ! k) else fs ! k)"
proof (induction d arbitrary: h fs)
  case 0
  then show ?case by simp
next
  case (Suc d)
  let ?F = "length fs"
  let ?fs1 = "fs[h := second_chance (fs ! h)]"
  have F: "0 < ?F" using Suc.prems by (cases fs) simp_all
  have h1: "Suc h mod ?F < length ?fs1" using F by simp
  have k1: "k < length ?fs1" using Suc.prems by simp
  have IH: "sweep d (Suc h mod ?F) ?fs1 ! k =
     (if \<exists>e<d. k = (h + Suc e) mod ?F then second_chance (?fs1 ! k) else ?fs1 ! k)"
    using Suc.IH [OF k1 h1] by (simp add: mod_step)
  show ?case
  proof (cases "k = h")
    case True
    have "\<exists>e<Suc d. k = (h + e) mod ?F" using True Suc.prems by (intro exI [of _ 0]) simp
    then show ?thesis using IH True Suc.prems by simp
  next
    case False
    have nth: "?fs1 ! k = fs ! k" using False by simp
    have eq: "(\<exists>e<Suc d. k = (h + e) mod ?F) \<longleftrightarrow> (\<exists>e<d. k = (h + Suc e) mod ?F)"
    proof
      assume "\<exists>e<Suc d. k = (h + e) mod ?F"
      then obtain e where e: "e < Suc d" "k = (h + e) mod ?F" by blast
      with False Suc.prems have "e \<noteq> 0" by (cases e) auto
      then obtain e' where "e = Suc e'" by (cases e) auto
      with e show "\<exists>e<d. k = (h + Suc e) mod ?F" by auto
    next
      assume "\<exists>e<d. k = (h + Suc e) mod ?F"
      then obtain e where "e < d" "k = (h + Suc e) mod ?F" by blast
      then show "\<exists>e<Suc d. k = (h + e) mod ?F" by (intro exI [of _ "Suc e"]) simp
    qed
    show ?thesis unfolding sweep.simps IH nth eq by (rule refl)
  qed
qed

text \<open>
  The scan on a full frame table with the hand at frame \<open>h\<close>: it passes \<open>d\<close> frames,
  all referenced, gives each its second chance, and replaces the next frame, which is
  the first unreferenced one (after a full round, \<open>d = F\<close>, that is frame \<open>h\<close> again).
  It ends within \<open>d + 1\<close> visited frames.
\<close>

lemma victim_loop_sweep:
  "length (Clock.frames v) = F \<Longrightarrow> clockPointer v = int h \<Longrightarrow> h < F \<Longrightarrow>
   None \<notin> set (Clock.frames v) \<Longrightarrow> nframes = int F \<Longrightarrow>
   \<exists>d\<le>F.
     (\<forall>e<d. is_referenced (Clock.frames v ! ((h + e) mod F))) \<and>
     (d < F \<longrightarrow> \<not> is_referenced (Clock.frames v ! ((h + d) mod F))) \<and>
     victim_loop_bounded (Suc d) nframes q v =
       Some (Inr (v\<lparr>Clock.frames := (sweep d h (Clock.frames v))[(h + d) mod F :=
                      Some \<lparr>PageID = q, Referenced = True, LoadCount = 1\<rparr>],
                    pageToFrame := ((pageToFrame v)
                        (PageFrame.PageID (the (Clock.frames v ! ((h + d) mod F))) := None))
                        (q \<mapsto> int ((h + d) mod F)),
                    clockPointer := int (((h + d) mod F + 1) mod F)\<rparr>))"
proof (induction nframes q v arbitrary: h rule: victim_loop.induct)
  case (1 nframes q v)
  let ?fs = "Clock.frames v"
  have hl: "h < length ?fs" using "1.prems" by simp
  then have "?fs ! h \<in> set ?fs" by (rule nth_mem)
  with "1.prems"(4) obtain fr where fr: "?fs ! h = Some fr" by (cases "?fs ! h") auto
  have ix: "index_at ?fs (clockPointer v) = Inr (Some fr)"
    using "1.prems"(1,2,3) fr by (simp add: index_at_def)
  have F0: "0 < F" using "1.prems"(3) by simp
  have rem: "go_rem (clockPointer v + 1) nframes = Inr (int (Suc h mod F))"
    using "1.prems"(2,5) F0 by (simp add: go_rem_nonneg zmod_int add.commute)
  have nh: "nat (clockPointer v) = h" using "1.prems"(2) by simp
  show ?case
  proof (cases "Referenced fr")
    case False
    have c4: "victim_loop_bounded (Suc 0) nframes q v =
       Some (Inr (v\<lparr>Clock.frames := (sweep 0 h ?fs)[(h + 0) mod F :=
                      Some \<lparr>PageID = q, Referenced = True, LoadCount = 1\<rparr>],
                    pageToFrame := ((pageToFrame v)
                        (PageFrame.PageID (the (?fs ! ((h + 0) mod F))) := None))
                        (q \<mapsto> int ((h + 0) mod F)),
                    clockPointer := int (((h + 0) mod F + 1) mod F)\<rparr>))"
      using ix rem False fr "1.prems"(2,3) by (simp add: nh victim_loop_bounded.simps)
    have c3: "0 < F \<longrightarrow> \<not> is_referenced (?fs ! ((h + 0) mod F))"
      using False fr "1.prems"(3) by (simp add: is_referenced_def)
    have c2: "\<forall>e<0. is_referenced (?fs ! ((h + e) mod F))" by simp
    have c1: "0 \<le> F" by simp
    show ?thesis by (intro exI [of _ 0] conjI) (fact c1 c2 c3 c4)+
  next
    case True
    let ?fs1 = "?fs[h := second_chance (?fs ! h)]"
    let ?h1 = "Suc h mod F"
    let ?v1 = "v\<lparr>Clock.frames := ?fs[nat (clockPointer v) := Some (fr\<lparr>Referenced := False\<rparr>)],
                 clockPointer := int ?h1\<rparr>"
    have fs1: "Clock.frames ?v1 = ?fs1" using fr by (simp add: nh second_chance_def)
    have step: "victim_loop_bounded (Suc (Suc d)) nframes q v =
        victim_loop_bounded (Suc d) nframes q ?v1" for d
      using ix rem True by (subst victim_loop_bounded.simps) simp
    have True': "\<not> \<not> Referenced fr" using True by simp
    have len1: "length (Clock.frames ?v1) = F" using "1.prems"(1) by simp
    have h1: "?h1 < F" using F0 by simp
    have none1: "None \<notin> set (Clock.frames ?v1)"
      using "1.prems"(4) by (auto dest!: set_update_subset_insert [THEN subsetD])
    have unref: "\<not> is_referenced (?fs1 ! h)" using hl by simp
    have p1: "clockPointer ?v1 = int ?h1" by simp
    from "1.IH" [OF ix refl True' rem len1 p1 h1 none1 "1.prems"(5)]
    obtain d1 where d1: "d1 \<le> F"
      and vis: "\<forall>e<d1. is_referenced (Clock.frames ?v1 ! ((?h1 + e) mod F))"
      and vic: "d1 < F \<longrightarrow> \<not> is_referenced (Clock.frames ?v1 ! ((?h1 + d1) mod F))"
      and res: "victim_loop_bounded (Suc d1) nframes q ?v1 =
        Some (Inr (?v1\<lparr>Clock.frames := (sweep d1 ?h1 (Clock.frames ?v1))[(?h1 + d1) mod F :=
                      Some \<lparr>PageID = q, Referenced = True, LoadCount = 1\<rparr>],
                    pageToFrame := ((pageToFrame ?v1)
                        (PageFrame.PageID (the (Clock.frames ?v1 ! ((?h1 + d1) mod F))) := None))
                        (q \<mapsto> int ((?h1 + d1) mod F)),
                    clockPointer := int (((?h1 + d1) mod F + 1) mod F)\<rparr>))"
      by blast
    have d1F: "d1 < F"
    proof (rule ccontr)
      assume "\<not> d1 < F"
      with d1 have "d1 = F" by simp
      with F0 have "F - 1 < d1" by simp
      with vis have "is_referenced (Clock.frames ?v1 ! ((?h1 + (F - 1)) mod F))" by blast
      moreover have "(?h1 + (F - 1)) mod F = h"
      proof -
        have "(?h1 + (F - 1)) mod F = (h + Suc (F - 1)) mod F" by (rule mod_step)
        also have "Suc (F - 1) = F" using F0 by simp
        also have "(h + F) mod F = h" using "1.prems"(3) by simp
        finally show ?thesis .
      qed
      ultimately show False using unref by (simp add: fs1)
    qed
    have pos: "(?h1 + e) mod F = (h + Suc e) mod F" for e by (rule mod_step)
    have keep: "?fs1 ! k = ?fs ! k" if "is_referenced (?fs1 ! k)" for k
      using that unref by (cases "k = h") auto
    have r2: "\<forall>e<Suc d1. is_referenced (?fs ! ((h + e) mod F))"
    proof (intro allI impI)
      fix e assume e: "e < Suc d1"
      show "is_referenced (?fs ! ((h + e) mod F))"
      proof (cases e)
        case 0
        then show ?thesis using fr True "1.prems"(3) by (simp add: is_referenced_def)
      next
        case (Suc e')
        with e vis have r: "is_referenced (?fs1 ! ((h + Suc e') mod F))"
          by (simp add: fs1 pos)
        from keep [OF r] r Suc show ?thesis by simp
      qed
    qed
    have r3: "Suc d1 < F \<longrightarrow> \<not> is_referenced (?fs ! ((h + Suc d1) mod F))"
    proof
      assume lt: "Suc d1 < F"
      then have "(h + Suc d1) mod F \<noteq> h" using "1.prems"(3) by (intro mod_around) simp_all
      then have "?fs1 ! ((h + Suc d1) mod F) = ?fs ! ((h + Suc d1) mod F)" by simp
      with vic d1F show "\<not> is_referenced (?fs ! ((h + Suc d1) mod F))" by (simp add: fs1 pos)
    qed
    have "PageFrame.PageID (the (?fs1 ! k)) = PageFrame.PageID (the (?fs ! k))"
      if "k < F" for k
    proof (cases "k = h")
      case True
      then show ?thesis using hl fr by (simp add: second_chance_def)
    next
      case False
      then show ?thesis by simp
    qed
    then have pg: "PageFrame.PageID (the (?fs1 ! ((h + Suc d1) mod F))) =
        PageFrame.PageID (the (?fs ! ((h + Suc d1) mod F)))"
      using F0 by simp
    have sw: "sweep d1 ?h1 ?fs1 = sweep (Suc d1) h ?fs"
      using "1.prems"(1) by simp
    have rec_eq: "?v1\<lparr>Clock.frames := (sweep d1 ?h1 (Clock.frames ?v1))[(?h1 + d1) mod F :=
                      Some \<lparr>PageID = q, Referenced = True, LoadCount = 1\<rparr>],
                    pageToFrame := ((pageToFrame ?v1)
                        (PageFrame.PageID (the (Clock.frames ?v1 ! ((?h1 + d1) mod F))) := None))
                        (q \<mapsto> int ((?h1 + d1) mod F)),
                    clockPointer := int (((?h1 + d1) mod F + 1) mod F)\<rparr> =
        v\<lparr>Clock.frames := (sweep (Suc d1) h ?fs)[(h + Suc d1) mod F :=
                      Some \<lparr>PageID = q, Referenced = True, LoadCount = 1\<rparr>],
                    pageToFrame := ((pageToFrame v)
                        (PageFrame.PageID (the (?fs ! ((h + Suc d1) mod F))) := None))
                        (q \<mapsto> int ((h + Suc d1) mod F)),
                    clockPointer := int (((h + Suc d1) mod F + 1) mod F)\<rparr>"
      unfolding fs1 pos pg sw by simp
    have r4: "victim_loop_bounded (Suc (Suc d1)) nframes q v =
        Some (Inr (v\<lparr>Clock.frames := (sweep (Suc d1) h ?fs)[(h + Suc d1) mod F :=
                      Some \<lparr>PageID = q, Referenced = True, LoadCount = 1\<rparr>],
                    pageToFrame := ((pageToFrame v)
                        (PageFrame.PageID (the (?fs ! ((h + Suc d1) mod F))) := None))
                        (q \<mapsto> int ((h + Suc d1) mod F)),
                    clockPointer := int (((h + Suc d1) mod F + 1) mod F)\<rparr>))"
      unfolding step res rec_eq by (rule refl)
    have r1: "Suc d1 \<le> F" using d1F by simp
    show ?thesis by (intro exI [of _ "Suc d1"] conjI) (fact r1 r2 r3 r4)+
  qed
qed

section \<open>Configuration errors\<close>

lemma sdiv_small: "- PAGE_SIZE < m \<Longrightarrow> m < PAGE_SIZE \<Longrightarrow> m sdiv PAGE_SIZE = 0"
  by (simp add: signed_divide_int_def PAGE_SIZE_def div_pos_pos_trivial)

text \<open>
  Claim C8. With \<open>totalFrames = 0\<close> the simulator refuses to run: \<open>Run\<close> returns the
  insufficient-memory error and the simulator as it was (the load counter is not even
  reset, so neither policy ran), and a memory size below one page gives zero frames.
  \<open>main\<close> rejects a memory size below \<open>PAGE_SIZE\<close> before any file is loaded.
\<close>

theorem C8_zero_frames_refused:
  "(totalFrames s = 0 \<longrightarrow> Run s = Inr (InsufficientMemory, s)) \<and>
   (- PAGE_SIZE < m \<and> m < PAGE_SIZE \<longrightarrow> totalFrames (NewSimulator m) = 0) \<and>
   (m < PAGE_SIZE \<longrightarrow> main (Some m) opts ids = MemoryTooSmall)"
  by (simp add: Run_def main_def NewSimulator_def sdiv_small)

theorem C8_zero_frames_refused_witness:
  "totalFrames (NewSimulator 4095) = 0 \<and>
   Run (NewSimulator 4095) = Inr (InsufficientMemory, NewSimulator 4095) \<and>
   main (Some 4095) [''-loadcount''] [''I0'', ''D1''] = MemoryTooSmall"
  using C8_zero_frames_refused [of "NewSimulator 4095" 4095 "[''-loadcount'']" "[''I0'', ''D1'']"]
  by (simp add: PAGE_SIZE_def)

section \<open>Determinism of a policy run\<close>

text \<open>
  Claim C9. A policy run is a function of the trace and the frame count: two simulators
  with the same \<open>totalFrames\<close> and the same \<open>accesses\<close> give the same fault count and the
  same load counter (or the same panic), whatever their other fields hold; and running
  a policy again on the simulator that a run has left behind gives the same fault
  count and leaves the same simulator. The model has no map iteration inside either
  policy, as the source has none, so no iteration order enters the result.
\<close>

theorem C9_deterministic:
  "(totalFrames s = totalFrames t \<and> accesses s = accesses t \<longrightarrow>
      measurement (OptimalAlgorithm s) = measurement (OptimalAlgorithm t) \<and>
      measurement (ClockAlgorithm s) = measurement (ClockAlgorithm t)) \<and>
   (OptimalAlgorithm s = Inr (n, s1) \<longrightarrow> OptimalAlgorithm s1 = Inr (n, s1)) \<and>
   (ClockAlgorithm s = Inr (m, s2) \<longrightarrow> ClockAlgorithm s2 = Inr (m, s2))"
proof (intro conjI impI)
  assume "totalFrames s = totalFrames t \<and> accesses s = accesses t"
  then have eq: "totalFrames s = totalFrames t" "accesses s = accesses t" by simp_all
  show "measurement (OptimalAlgorithm s) = measurement (OptimalAlgorithm t)"
    using eq by (rule OptimalAlgorithm_same_trace)
  show "measurement (ClockAlgorithm s) = measurement (ClockAlgorithm t)"
    using eq by (rule ClockAlgorithm_same_trace)
next
  assume r: "OptimalAlgorithm s = Inr (n, s1)"
  have "measurement (OptimalAlgorithm s1) = measurement (OptimalAlgorithm s)"
    using frame_fields(1,2) [of s1 s, OF OptimalAlgorithm_frame [OF r]]
    by (rule OptimalAlgorithm_same_trace)
  with r obtain s' where r': "OptimalAlgorithm s1 = Inr (n, s')"
    and plc: "pageLoadCount s' = pageLoadCount s1"
    by (auto simp: measurement_def split: sum.splits)
  have "s' = s1"
    by (rule frame_fields(5) [of s' s1, OF OptimalAlgorithm_frame [OF r'] plc])
  with r' show "OptimalAlgorithm s1 = Inr (n, s1)" by simp
next
  assume r: "ClockAlgorithm s = Inr (m, s2)"
  have "measurement (ClockAlgorithm s2) = measurement (ClockAlgorithm s)"
    using frame_fields(1,2) [of s2 s, OF ClockAlgorithm_frame [OF r]]
    by (rule ClockAlgorithm_same_trace)
  with r obtain s' where r': "ClockAlgorithm s2 = Inr (m, s')"
    and plc: "pageLoadCount s' = pageLoadCount s2"
    by (auto simp: measurement_def split: sum.splits)
  have "s' = s2"
    by (rule frame_fields(5) [of s' s2, OF ClockAlgorithm_frame [OF r'] plc])
  with r' show "ClockAlgorithm s2 = Inr (m, s2)" by simp
qed

theorem C9_deterministic_witness:
  "measurement (OptimalAlgorithm small_example) =
     measurement (OptimalAlgorithm (small_example\<lparr>pageLoadCount := [''I9'' \<mapsto> 5], didacticMode := True\<rparr>)) \<and>
   measurement (ClockAlgorithm small_example) =
     measurement (ClockAlgorithm (small_example\<lparr>pageLoadCount := [''I9'' \<mapsto> 5], didacticMode := True\<rparr>)) \<and>
   (\<exists>s1. OptimalAlgorithm small_example = Inr (3, s1) \<and> OptimalAlgorithm s1 = Inr (3, s1)) \<and>
   (\<exists>s2. ClockAlgorithm small_example = Inr (4, s2) \<and> ClockAlgorithm s2 = Inr (4, s2))"
proof -
  have "faults_of (OptimalAlgorithm small_example) = Some 3" by code_simp
  then obtain s1 where s1: "OptimalAlgorithm small_example = Inr (3, s1)"
    by (auto simp: faults_of_def split: sum.splits)
  have "faults_of (ClockAlgorithm small_example) = Some 4" by code_simp
  then obtain s2 where s2: "ClockAlgorithm small_example = Inr (4, s2)"
    by (auto simp: faults_of_def split: sum.splits)
  show ?thesis
    using s1 s2
      C9_deterministic [of small_example
        "small_example\<lparr>pageLoadCount := [''I9'' \<mapsto> 5], didacticMode := True\<rparr>" 3 s1 4 s2]
    by simp
qed

section \<open>The load counter across policy runs\<close>

lemma Run_reports_clock:
  assumes "Run s = Inr (Report a b shown, s')"
  shows "measurement (ClockAlgorithm s) = Inr (b, pageLoadCount s')"
    and "shown = (if showLoadCount s then Some (pageLoadCount s') else None)"
proof -
  from assms obtain s1 where
    opt: "(if \<not> skipOptimal s then OptimalAlgorithm s else Inr (- 1, s)) = Inr (a, s1)"
    and clk: "ClockAlgorithm s1 = Inr (b, s')"
    and shown: "shown = ShowLoadCount s'"
    by (auto simp: Run_def split: if_splits sum.splits)
  have s1: "s1\<lparr>pageLoadCount := x\<rparr> = s\<lparr>pageLoadCount := x\<rparr>" for x
  proof (cases "skipOptimal s")
    case True
    with opt show ?thesis by simp
  next
    case False
    with opt have "OptimalAlgorithm s = Inr (a, s1)" by simp
    then show ?thesis by (rule OptimalAlgorithm_frame)
  qed
  have "measurement (ClockAlgorithm s1) = measurement (ClockAlgorithm s)"
    using frame_fields(1,2) [of s1 s, OF s1] by (rule ClockAlgorithm_same_trace)
  with clk show "measurement (ClockAlgorithm s) = Inr (b, pageLoadCount s')"
    by (simp add: measurement_def)
  have "showLoadCount s' = showLoadCount s1"
    using frame_fields(4) [of s' s1, OF ClockAlgorithm_frame [OF clk]] .
  also have "\<dots> = showLoadCount s"
    using frame_fields(4) [of s1 s, OF s1] .
  finally show "shown = (if showLoadCount s then Some (pageLoadCount s') else None)"
    using shown by (simp add: ShowLoadCount_def)
qed

text \<open>
  Claim C7 as stated fails on its second half: the simulator has one \<open>pageLoadCount\<close>
  field, and \<open>Run\<close> calls \<open>ShowLoadCount\<close> once, after both policies. On the example
  trace (two frames, pages I0 D1 I2 I0) the optimal run loads I0 once; after \<open>Run\<close> the
  counter, and the load counts shown, say twice, which is the clock run's count: the
  counts of the optimal run have been replaced before anything was reported.
\<close>

theorem C7_counts_replaced_counterexample:
  "(case OptimalAlgorithm (small_example\<lparr>showLoadCount := True\<rparr>) of
      Inl e \<Rightarrow> False
    | Inr (n, s1) \<Rightarrow> pageLoadCount s1 ''I0'' = Some 1) \<and>
   (case Run (small_example\<lparr>showLoadCount := True\<rparr>) of
      Inr (Report a b (Some shown), s2) \<Rightarrow>
        shown ''I0'' = Some 2 \<and> pageLoadCount s2 ''I0'' = Some 2
    | _ \<Rightarrow> False)"
  by code_simp

text \<open>
  Claim C7, amended. Each policy resets the load counter before its first access, so
  the counts a run leaves do not depend on what the counter held before (they are per
  run, never cumulative). Both policies write the same field: after \<open>Run\<close> the counter
  holds the counts of the clock run, and these are the counts \<open>ShowLoadCount\<close> shows.
\<close>

theorem C7_counter_reset_per_run:
  "pageLoadCount (snd (OptimalAlgorithm_init s)) = Map.empty \<and>
   pageLoadCount (snd (ClockAlgorithm_init s)) = Map.empty \<and>
   measurement (OptimalAlgorithm (s\<lparr>pageLoadCount := c\<rparr>)) = measurement (OptimalAlgorithm s) \<and>
   measurement (ClockAlgorithm (s\<lparr>pageLoadCount := c\<rparr>)) = measurement (ClockAlgorithm s) \<and>
   (Run s = Inr (Report a b shown, s') \<longrightarrow>
      measurement (ClockAlgorithm s) = Inr (b, pageLoadCount s') \<and>
      shown = (if showLoadCount s then Some (pageLoadCount s') else None))"
proof (intro conjI impI)
  show "pageLoadCount (snd (OptimalAlgorithm_init s)) = Map.empty"
    by (simp add: OptimalAlgorithm_init_def)
  show "pageLoadCount (snd (ClockAlgorithm_init s)) = Map.empty"
    by (simp add: ClockAlgorithm_init_def)
  show "measurement (OptimalAlgorithm (s\<lparr>pageLoadCount := c\<rparr>)) = measurement (OptimalAlgorithm s)"
    by (rule OptimalAlgorithm_same_trace) simp_all
  show "measurement (ClockAlgorithm (s\<lparr>pageLoadCount := c\<rparr>)) = measurement (ClockAlgorithm s)"
    by (rule ClockAlgorithm_same_trace) simp_all
next
  assume r: "Run s = Inr (Report a b shown, s')"
  show "measurement (ClockAlgorithm s) = Inr (b, pageLoadCount s')"
    using r by (rule Run_reports_clock(1))
  show "shown = (if showLoadCount s then Some (pageLoadCount s') else None)"
    using r by (rule Run_reports_clock(2))
qed

theorem C7_counter_reset_per_run_witness:
  "\<exists>shown s'. Run (small_example\<lparr>showLoadCount := True\<rparr>) = Inr (Report 3 4 shown, s') \<and>
     measurement (ClockAlgorithm (small_example\<lparr>showLoadCount := True\<rparr>)) = Inr (4, pageLoadCount s') \<and>
     shown = Some (pageLoadCount s')"
proof -
  have "case Run (small_example\<lparr>showLoadCount := True\<rparr>) of
          Inr (Report a b shown, s') \<Rightarrow> a = 3 \<and> b = 4 | _ \<Rightarrow> False"
    by code_simp
  then obtain shown s' where
    r: "Run (small_example\<lparr>showLoadCount := True\<rparr>) = Inr (Report 3 4 shown, s')"
    by (auto split: sum.splits outcome.splits prod.splits)
  show ?thesis
    using r C7_counter_reset_per_run [of "small_example\<lparr>showLoadCount := True\<rparr>" Map.empty 3 4 shown s']
    by simp
qed

section \<open>The victim chosen by OptimalAlgorithm\<close>

text \<open>
  Claim C2. On a fault with no free frame (and at least one frame) the access replaces
  the page in frame \<open>j\<close>, where: if some resident page does not occur after the current
  position \<open>k\<close>, frame \<open>j\<close> is the lowest-indexed frame with such a page; otherwise the
  page in frame \<open>j\<close> has the greatest next occurrence, and every frame before \<open>j\<close> has
  a strictly smaller one. The search of the second copy of the source picks the same
  frame.
\<close>

theorem C2_victim_choice:
  assumes "k < length (accesses s)"
    and "OPT.inMemory v (PageAccess.PageID (accesses s ! k)) = None"
    and "\<not> int (length (OPT.frames v)) < totalFrames s"
    and "1 \<le> totalFrames s"
  shows "\<exists>j<length (OPT.frames v).
     OptimalAlgorithm_access (pageAccessPositions 0 (accesses s) Map.empty) (int k)
         (accesses s ! k) (v, s) =
       Inr (v\<lparr>OPT.frames := (OPT.frames v)[j := PageAccess.PageID (accesses s ! k)],
              OPT.inMemory := ((OPT.inMemory v)(OPT.frames v ! j := None))
                                (PageAccess.PageID (accesses s ! k) \<mapsto> True),
              OPT.pageFaults := OPT.pageFaults v + 1\<rparr>,
            s\<lparr>pageLoadCount := increment (pageLoadCount s) (PageAccess.PageID (accesses s ! k))\<rparr>) \<and>
     victim_search_alt (pageAccessPositions 0 (accesses s) Map.empty) (int (length (accesses s)))
       (int k) 0 (OPT.frames v) (- 1) (- 1) = Inr (int j) \<and>
     (if \<exists>l<length (OPT.frames v). \<not> used_again (trace s) k (OPT.frames v ! l)
      then \<not> used_again (trace s) k (OPT.frames v ! j) \<and>
           (\<forall>l<j. used_again (trace s) k (OPT.frames v ! l))
      else (\<forall>l<length (OPT.frames v).
              next_occurrence (trace s) k (OPT.frames v ! l)
                \<le> next_occurrence (trace s) k (OPT.frames v ! j)) \<and>
           (\<forall>l<j. next_occurrence (trace s) k (OPT.frames v ! l)
                < next_occurrence (trace s) k (OPT.frames v ! j)))"
proof -
  let ?fs = "OPT.frames v"
  let ?K = "\<lambda>p. next_occurrence (trace s) k p"
  have ne: "?fs \<noteq> []" using assms(3,4) by auto
  have k': "k < length (trace s)" using assms(1) by (simp add: trace_def)
  from OptimalAlgorithm_access_replace [OF assms(1,2,3) ne, folded trace_def]
  obtain j where j: "j < length ?fs"
    and acc: "OptimalAlgorithm_access (pageAccessPositions 0 (accesses s) Map.empty) (int k)
         (accesses s ! k) (v, s) =
       Inr (v\<lparr>OPT.frames := ?fs[j := PageAccess.PageID (accesses s ! k)],
              OPT.inMemory := ((OPT.inMemory v)(?fs ! j := None))
                                (PageAccess.PageID (accesses s ! k) \<mapsto> True),
              OPT.pageFaults := OPT.pageFaults v + 1\<rparr>,
            s\<lparr>pageLoadCount := increment (pageLoadCount s) (PageAccess.PageID (accesses s ! k))\<rparr>)"
    and alt: "victim_search_alt (pageAccessPositions 0 (accesses s) Map.empty)
       (int (length (accesses s))) (int k) 0 ?fs (- 1) (- 1) = Inr (int j)"
    and mx: "\<forall>l<length ?fs. ?K (?fs ! l) \<le> ?K (?fs ! j)"
    and fst: "\<forall>l<j. ?K (?fs ! l) < ?K (?fs ! j)"
    by blast
  have never: "\<not> used_again (trace s) k (?fs ! j) \<and> (\<forall>l<j. used_again (trace s) k (?fs ! l))"
    if "\<exists>l<length ?fs. \<not> used_again (trace s) k (?fs ! l)"
  proof -
    from that obtain l where l: "l < length ?fs" "\<not> used_again (trace s) k (?fs ! l)" by blast
    then have "?K (?fs ! l) = length (trace s)" using k' by (simp add: next_occurrence_bounds)
    with mx l(1) have top: "length (trace s) \<le> ?K (?fs ! j)" by auto
    then have "\<not> used_again (trace s) k (?fs ! j)"
      using next_occurrence_bounds(1) [OF k', of "?fs ! j"] by auto
    moreover have "used_again (trace s) k (?fs ! l')" if "l' < j" for l'
    proof (rule ccontr)
      assume "\<not> used_again (trace s) k (?fs ! l')"
      then have "?K (?fs ! l') = length (trace s)" using k' by (simp add: next_occurrence_bounds)
      moreover have "?K (?fs ! j) \<le> length (trace s)" using k' by (rule next_occurrence_le)
      ultimately show False using fst that by auto
    qed
    ultimately show ?thesis by blast
  qed
  show ?thesis
    using j acc alt mx fst never by (intro exI [of _ j]) simp
qed

theorem C2_victim_choice_witness:
  "\<exists>j<length (OPT.frames small_example_full).
     OptimalAlgorithm_access (pageAccessPositions 0 (accesses small_example) Map.empty) (int 2)
         (accesses small_example ! 2) (small_example_full, small_example) =
       Inr (small_example_full
              \<lparr>OPT.frames := (OPT.frames small_example_full)
                               [j := PageAccess.PageID (accesses small_example ! 2)],
               OPT.inMemory := ((OPT.inMemory small_example_full)
                                  (OPT.frames small_example_full ! j := None))
                                (PageAccess.PageID (accesses small_example ! 2) \<mapsto> True),
               OPT.pageFaults := OPT.pageFaults small_example_full + 1\<rparr>,
            small_example\<lparr>pageLoadCount := increment (pageLoadCount small_example)
                                              (PageAccess.PageID (accesses small_example ! 2))\<rparr>) \<and>
     victim_search_alt (pageAccessPositions 0 (accesses small_example) Map.empty)
       (int (length (accesses small_example))) (int 2) 0 (OPT.frames small_example_full)
       (- 1) (- 1) = Inr (int j) \<and>
     \<not> used_again (trace small_example) 2 (OPT.frames small_example_full ! j) \<and>
     (\<forall>l<j. used_again (trace small_example) 2 (OPT.frames small_example_full ! l))"
proof -
  have h1: "2 < length (accesses small_example)"
    and h2: "OPT.inMemory small_example_full (PageAccess.PageID (accesses small_example ! 2)) = None"
    and h3: "\<not> int (length (OPT.frames small_example_full)) < totalFrames small_example"
    and h4: "1 \<le> totalFrames small_example"
    and u: "\<not> used_again (trace small_example) 2 (OPT.frames small_example_full ! 1)"
    and n: "1 < length (OPT.frames small_example_full)"
    by code_simp+
  have ex: "\<exists>l<length (OPT.frames small_example_full).
      \<not> used_again (trace small_example) 2 (OPT.frames small_example_full ! l)"
    using u n by blast
  show ?thesis
    using C2_victim_choice [OF h1 h2 h3 h4] unfolding if_P [OF ex] .
qed

section \<open>OptimalAlgorithm never has more faults than ClockAlgorithm\<close>

text \<open>
  Claim C1. With at least one frame both policies return a fault count, and the count
  of \<open>OptimalAlgorithm\<close> is at most the count of \<open>ClockAlgorithm\<close> on the same trace
  and frame count (for every trace, empty or not).
\<close>

theorem C1_optimal_at_most_clock:
  assumes "1 \<le> totalFrames s"
  shows "\<exists>n m. faults_of (OptimalAlgorithm s) = Some n \<and> faults_of (ClockAlgorithm s) = Some m \<and>
           n \<le> m"
proof -
  from ClockAlgorithm_is_paging [OF assms] obtain m where
    m: "faults_of (ClockAlgorithm s) = Some (int m)" "paging (nat (totalFrames s)) {} (trace s) m"
    by blast
  from OptimalAlgorithm_bound [OF assms m(2)] m(1) show ?thesis by blast
qed

theorem C1_optimal_at_most_clock_witness:
  "faults_of (OptimalAlgorithm small_example) = Some 3 \<and>
   faults_of (ClockAlgorithm small_example) = Some 4 \<and> (3::int) \<le> 4"
proof -
  have h: "1 \<le> totalFrames small_example" by code_simp
  have o: "faults_of (OptimalAlgorithm small_example) = Some 3"
    and c: "faults_of (ClockAlgorithm small_example) = Some 4"
    by code_simp+
  show ?thesis using C1_optimal_at_most_clock [OF h] o c by simp
qed

section \<open>More frames\<close>

text \<open>
  Claim C4 as stated fails for \<open>ClockAlgorithm\<close>: on the trace 1 2 3 4 1 2 5 1 2 3 4 5
  it has 9 faults with three frames and 10 faults with four.
\<close>

theorem C4_clock_anomaly_counterexample:
  "totalFrames (loaded 12288 anomaly_trace) = 3 \<and>
   totalFrames (loaded 16384 anomaly_trace) = 4 \<and>
   trace (loaded 12288 anomaly_trace) = anomaly_trace \<and>
   trace (loaded 16384 anomaly_trace) = anomaly_trace \<and>
   faults_of (ClockAlgorithm (loaded 12288 anomaly_trace)) = Some 9 \<and>
   faults_of (ClockAlgorithm (loaded 16384 anomaly_trace)) = Some 10"
  by code_simp

text \<open>
  Claim C4, amended. For \<open>OptimalAlgorithm\<close>, with at least one frame, more frames on
  the same trace never give more faults. (Nothing of the kind holds for
  \<open>ClockAlgorithm\<close>.)
\<close>

theorem C4_optimal_monotone:
  assumes "1 \<le> totalFrames s" and "totalFrames s \<le> totalFrames t" and "accesses t = accesses s"
  shows "\<exists>n m. faults_of (OptimalAlgorithm s) = Some n \<and> faults_of (OptimalAlgorithm t) = Some m \<and>
           m \<le> n"
proof -
  from OptimalAlgorithm_is_paging [OF assms(1)] obtain n where
    n: "faults_of (OptimalAlgorithm s) = Some (int n)" "paging (nat (totalFrames s)) {} (trace s) n"
    by blast
  have "paging (nat (totalFrames t)) {} (trace t) n"
    using paging_capacity_mono [OF n(2), of "nat (totalFrames t)"] assms(2,3)
    by (simp add: trace_def)
  moreover have "1 \<le> totalFrames t" using assms(1,2) by simp
  ultimately obtain m where "faults_of (OptimalAlgorithm t) = Some m" "m \<le> int n"
    using OptimalAlgorithm_bound by blast
  with n(1) show ?thesis by blast
qed

theorem C4_optimal_monotone_witness:
  "faults_of (OptimalAlgorithm (loaded 12288 anomaly_trace)) = Some 7 \<and>
   faults_of (OptimalAlgorithm (loaded 16384 anomaly_trace)) = Some 6 \<and> (6::int) \<le> 7"
proof -
  have h: "1 \<le> totalFrames (loaded 12288 anomaly_trace)"
    "totalFrames (loaded 12288 anomaly_trace) \<le> totalFrames (loaded 16384 anomaly_trace)"
    by code_simp+
  have a: "accesses (loaded 16384 anomaly_trace) = accesses (loaded 12288 anomaly_trace)"
    by (simp add: loaded_def NewSimulator_def anomaly_trace_def valid_pageID_def)
  have o: "faults_of (OptimalAlgorithm (loaded 12288 anomaly_trace)) = Some 7"
    "faults_of (OptimalAlgorithm (loaded 16384 anomaly_trace)) = Some 6"
    by code_simp+
  show ?thesis using C4_optimal_monotone [OF h a] o by simp
qed

section \<open>Fault count and load counter\<close>

lemma OptimalAlgorithm_counts:
  assumes F: "1 \<le> totalFrames s"
  shows "\<exists>n s'. OptimalAlgorithm s = Inr (n, s') \<and> finite (dom (pageLoadCount s')) \<and>
     n = total_loads (pageLoadCount s')"
proof -
  let ?F = "nat (totalFrames s)"
  let ?pos = "pageAccessPositions 0 (accesses s) Map.empty"
  define I where "I = (\<lambda>(j::nat) (v::OPT) (s'::Simulator). OPT_inv ?F v \<and> totalFrames s' = int ?F \<and>
     finite (dom (pageLoadCount s')) \<and> OPT.pageFaults v = total_loads (pageLoadCount s'))"
  have F': "1 \<le> ?F" using F by simp
  have step: "\<exists>v' s'. OptimalAlgorithm_access ?pos (int j) (accesses s ! j) (v, t) = Inr (v', s') \<and>
      I (Suc j) v' s'" if j: "j < length (accesses s)" and I: "I j v t" for j v t
  proof -
    from I have inv: "OPT_inv ?F v" and Ft: "totalFrames t = int ?F"
      and fin: "finite (dom (pageLoadCount t))"
      and cnt: "OPT.pageFaults v = total_loads (pageLoadCount t)"
      by (simp_all add: I_def)
    from OptimalAlgorithm_access_step [OF inv Ft F' j] obtain v' s' where
      acc: "OptimalAlgorithm_access ?pos (int j) (accesses s ! j) (v, t) = Inr (v', s')"
      and inv': "OPT_inv ?F v'" and Ft': "totalFrames s' = int ?F"
      and eff: "if PageAccess.PageID (accesses s ! j) \<in> set (OPT.frames v) then v' = v \<and> s' = t
        else OPT.pageFaults v' = OPT.pageFaults v + 1 \<and>
             s' = t\<lparr>pageLoadCount := increment (pageLoadCount t) (PageAccess.PageID (accesses s ! j))\<rparr>"
      by (auto split: if_splits)
    have "finite (dom (pageLoadCount s')) \<and> OPT.pageFaults v' = total_loads (pageLoadCount s')"
      using eff fin cnt total_loads_increment [OF fin, of "PageAccess.PageID (accesses s ! j)"]
      by (auto split: if_splits)
    with acc inv' Ft' show ?thesis by (simp add: I_def)
  qed
  obtain v0 s0 where init: "OptimalAlgorithm_init s = (v0, s0)" by (cases "OptimalAlgorithm_init s")
  then have "I 0 v0 s0"
    using F by (auto simp: OptimalAlgorithm_init_def OPT_inv_def I_def total_loads_def)
  from OptimalAlgorithm_loop_invariant [of "accesses s" I ?pos, OF step this, of "length (accesses s)"]
  obtain v' s' where "OptimalAlgorithm_loop ?pos 0 (accesses s) (v0, s0) = Inr (v', s')"
    "I (length (accesses s)) v' s'" by auto
  then show ?thesis using F
    by (simp add: OptimalAlgorithm_def OptimalAlgorithm_run_def init I_def)
qed

lemma ClockAlgorithm_counts:
  assumes F: "1 \<le> totalFrames s"
  shows "\<exists>n s'. ClockAlgorithm s = Inr (n, s') \<and> finite (dom (pageLoadCount s')) \<and>
     n = total_loads (pageLoadCount s')"
proof -
  let ?F = "nat (totalFrames s)"
  define I where "I = (\<lambda>(j::nat) (v::Clock) (s'::Simulator). Clock_inv ?F v \<and> totalFrames s' = int ?F \<and>
     finite (dom (pageLoadCount s')) \<and> Clock.pageFaults v = total_loads (pageLoadCount s'))"
  have step: "\<exists>v' s'. ClockAlgorithm_access (accesses s ! j) (v, t) = Inr (v', s') \<and>
      I (Suc j) v' s'" if j: "j < length (accesses s)" and I: "I j v t" for j v t
  proof -
    from I have inv: "Clock_inv ?F v" and Ft: "totalFrames t = int ?F"
      and fin: "finite (dom (pageLoadCount t))"
      and cnt: "Clock.pageFaults v = total_loads (pageLoadCount t)"
      by (simp_all add: I_def)
    let ?q = "PageAccess.PageID (accesses s ! j)"
    from ClockAlgorithm_access_step [OF inv Ft, of "accesses s ! j"] obtain v' s' where
      acc: "ClockAlgorithm_access (accesses s ! j) (v, t) = Inr (v', s')"
      and inv': "Clock_inv ?F v'" and Ft': "totalFrames s' = int ?F"
      and eff: "if ?q \<in> dom (pageToFrame v)
        then pageToFrame v' = pageToFrame v \<and> Clock.pageFaults v' = Clock.pageFaults v \<and> s' = t
        else Clock.pageFaults v' = Clock.pageFaults v + 1 \<and>
             s' = t\<lparr>pageLoadCount := increment (pageLoadCount t) ?q\<rparr> \<and>
             ?q \<in> dom (pageToFrame v') \<and> dom (pageToFrame v') \<subseteq> insert ?q (dom (pageToFrame v))"
      by blast
    have "finite (dom (pageLoadCount s')) \<and> Clock.pageFaults v' = total_loads (pageLoadCount s')"
    proof (cases "?q \<in> dom (pageToFrame v)")
      case True
      with eff fin cnt show ?thesis by simp
    next
      case False
      with eff have "Clock.pageFaults v' = Clock.pageFaults v + 1"
        "s' = t\<lparr>pageLoadCount := increment (pageLoadCount t) ?q\<rparr>" by simp_all
      with cnt total_loads_increment [OF fin, of ?q] show ?thesis by simp
    qed
    with acc inv' Ft' show ?thesis by (simp add: I_def)
  qed
  obtain v0 s0 where init: "ClockAlgorithm_init s = (v0, s0)" by (cases "ClockAlgorithm_init s")
  then have "I 0 v0 s0"
    using F by (auto simp: ClockAlgorithm_init_def Clock_inv_def I_def total_loads_def frame_pages_def)
  from ClockAlgorithm_loop_invariant [of "accesses s" I, OF step this, of "length (accesses s)"]
  obtain v' s' where "ClockAlgorithm_loop (accesses s) (v0, s0) = Inr (v', s')"
    "I (length (accesses s)) v' s'" by auto
  then show ?thesis using F
    by (simp add: ClockAlgorithm_def ClockAlgorithm_run_def init I_def)
qed

text \<open>
  Claim C10. With at least one frame, each policy returns a fault count, and that count
  is the sum of the load counts that the run leaves in the (finite) load counter.
\<close>

theorem C10_faults_are_total_loads:
  assumes "1 \<le> totalFrames s"
  shows "(\<exists>n s'. OptimalAlgorithm s = Inr (n, s') \<and> finite (dom (pageLoadCount s')) \<and>
            n = total_loads (pageLoadCount s')) \<and>
         (\<exists>m s'. ClockAlgorithm s = Inr (m, s') \<and> finite (dom (pageLoadCount s')) \<and>
            m = total_loads (pageLoadCount s'))"
  using OptimalAlgorithm_counts [OF assms] ClockAlgorithm_counts [OF assms] by blast

theorem C10_faults_are_total_loads_witness:
  "(\<exists>s'. OptimalAlgorithm small_example = Inr (3, s') \<and> total_loads (pageLoadCount s') = 3) \<and>
   (\<exists>s'. ClockAlgorithm small_example = Inr (4, s') \<and> total_loads (pageLoadCount s') = 4)"
proof -
  have h: "1 \<le> totalFrames small_example" by code_simp
  have o: "faults_of (OptimalAlgorithm small_example) = Some 3"
    and c: "faults_of (ClockAlgorithm small_example) = Some 4"
    by code_simp+
  show ?thesis using C10_faults_are_total_loads [OF h] o c by (auto simp: faults_of_def)
qed

text \<open>
  Claim C5. On a non-empty trace with at least as many frames as distinct pages, each
  policy returns the number of distinct pages and leaves a load counter that maps every
  page of the trace to exactly 1 (and has no other key). No eviction ever occurs:
  before no access is the run in a state in which that access evicts a page, and at
  every point of the run, the end included, the pages resident in the frames are
  exactly the pages accessed so far, so that no page loaded has left its frame.
\<close>

theorem C5_enough_frames:
  assumes "accesses s \<noteq> []" and "int (card (set (trace s))) \<le> totalFrames s"
  shows "(\<exists>s'. OptimalAlgorithm s = Inr (int (card (set (trace s))), s') \<and>
            pageLoadCount s' = (\<lambda>p. if p \<in> set (trace s) then Some 1 else None)) \<and>
         (\<exists>s'. ClockAlgorithm s = Inr (int (card (set (trace s))), s') \<and>
            pageLoadCount s' = (\<lambda>p. if p \<in> set (trace s) then Some 1 else None)) \<and>
         (\<forall>k<length (accesses s).
            (\<exists>st. OptimalAlgorithm_before s k = Inr st \<and>
               \<not> OptimalAlgorithm_evicts st (accesses s ! k)) \<and>
            (\<exists>st. ClockAlgorithm_before s k = Inr st \<and>
               \<not> ClockAlgorithm_evicts st (accesses s ! k))) \<and>
         (\<forall>k\<le>length (accesses s).
            OptimalAlgorithm_resident s k = Some (set (take k (trace s))) \<and>
            ClockAlgorithm_resident s k = Some (set (take k (trace s))))"
proof -
  let ?F = "nat (totalFrames s)"
  have "trace s \<noteq> []" using assms(1) by (simp add: trace_def)
  then have "0 < card (set (trace s))" by (simp add: card_gt_0_iff)
  with assms(2) have F: "1 \<le> totalFrames s" by simp
  have whole: "take (length (accesses s)) (trace s) = trace s" by (simp add: trace_def)
  have opt_run: "OptimalAlgorithm_run s = OptimalAlgorithm_before s (length (accesses s))"
    using F by (simp add: OptimalAlgorithm_run_def OptimalAlgorithm_before_def)
  have clk_run: "ClockAlgorithm_run s = ClockAlgorithm_before s (length (accesses s))"
    using F by (simp add: ClockAlgorithm_run_def ClockAlgorithm_before_def)
  from OptimalAlgorithm_enough_frames [OF F assms(2) le_refl]
  have 1: "\<exists>s'. OptimalAlgorithm s = Inr (int (card (set (trace s))), s') \<and>
            pageLoadCount s' = (\<lambda>p. if p \<in> set (trace s) then Some 1 else None)"
    unfolding whole by (auto simp: OptimalAlgorithm_def opt_run)
  from ClockAlgorithm_enough_frames [OF F assms(2) le_refl]
  have 2: "\<exists>s'. ClockAlgorithm s = Inr (int (card (set (trace s))), s') \<and>
            pageLoadCount s' = (\<lambda>p. if p \<in> set (trace s) then Some 1 else None)"
    unfolding whole by (auto simp: ClockAlgorithm_def clk_run)
  have 3: "\<exists>st. OptimalAlgorithm_before s k = Inr st \<and> \<not> OptimalAlgorithm_evicts st (accesses s ! k)"
    if k: "k < length (accesses s)" for k
  proof -
    let ?q = "PageAccess.PageID (accesses s ! k)"
    have q: "trace s ! k = ?q" and k': "k < length (trace s)" using k by (simp_all add: trace_def)
    from OptimalAlgorithm_enough_frames [OF F assms(2), of k] k obtain v s' where
      st: "OptimalAlgorithm_before s k = Inr (v, s')" and inv: "OPT_inv ?F v"
      and Fs: "totalFrames s' = totalFrames s"
      and fr: "set (OPT.frames v) = set (take k (trace s))"
      by auto
    have "int (length (OPT.frames v)) < totalFrames s'" if "OPT.inMemory v ?q = None"
    proof -
      from that inv have "?q \<notin> set (OPT.frames v)" by (auto simp: OPT_inv_def)
      then have new: "trace s ! k \<notin> set (take k (trace s))" using fr q by simp
      have "length (OPT.frames v) = card (set (take k (trace s)))"
        using OPT_inv_card [OF inv] fr by simp
      also have "\<dots> < card (set (trace s))" using k' new by (rule new_page_card)
      finally show ?thesis using assms(2) Fs by simp
    qed
    then have "\<not> OptimalAlgorithm_evicts (v, s') (accesses s ! k)"
      by (auto simp: OptimalAlgorithm_evicts_def)
    with st show ?thesis by blast
  qed
  have 4: "\<exists>st. ClockAlgorithm_before s k = Inr st \<and> \<not> ClockAlgorithm_evicts st (accesses s ! k)"
    if k: "k < length (accesses s)" for k
  proof -
    let ?q = "PageAccess.PageID (accesses s ! k)"
    have q: "trace s ! k = ?q" and k': "k < length (trace s)" using k by (simp_all add: trace_def)
    from ClockAlgorithm_enough_frames [OF F assms(2), of k] k obtain v s' where
      st: "ClockAlgorithm_before s k = Inr (v, s')" and inv: "Clock_inv ?F v"
      and Fs: "totalFrames s' = totalFrames s"
      and fr: "dom (pageToFrame v) = set (take k (trace s))"
      by auto
    from inv have len: "length (Clock.frames v) = ?F" by (simp add: Clock_inv_def)
    have "emptyFrame_search (Clock.frames v) (totalFrames s') 0 \<noteq> Inr (- 1)"
      if miss: "pageToFrame v ?q = None"
    proof -
      from miss have "?q \<notin> dom (pageToFrame v)" by auto
      then have new: "trace s ! k \<notin> set (take k (trace s))" using fr q by simp
      have free: "None \<in> set (Clock.frames v)"
      proof (rule ccontr)
        assume "None \<notin> set (Clock.frames v)"
        from Clock_inv_full_card [OF inv this] have "?F \<le> card (set (take k (trace s)))"
          by (simp add: fr)
        also have "\<dots> < card (set (trace s))" using k' new by (rule new_page_card)
        finally show False using assms(2) by simp
      qed
      from emptyFrame_search_first(1) [OF len free] show ?thesis using Fs F by auto
    qed
    then have "\<not> ClockAlgorithm_evicts (v, s') (accesses s ! k)"
      by (auto simp: ClockAlgorithm_evicts_def)
    with st show ?thesis by blast
  qed
  have 5: "OptimalAlgorithm_resident s k = Some (set (take k (trace s)))"
    if k: "k \<le> length (accesses s)" for k
    using OptimalAlgorithm_enough_frames [OF F assms(2) k]
    by (auto simp: OptimalAlgorithm_resident_def)
  have 6: "ClockAlgorithm_resident s k = Some (set (take k (trace s)))"
    if k: "k \<le> length (accesses s)" for k
  proof -
    from ClockAlgorithm_enough_frames [OF F assms(2) k] obtain v s' where
      st: "ClockAlgorithm_before s k = Inr (v, s')" and inv: "Clock_inv ?F v"
      and fr: "dom (pageToFrame v) = set (take k (trace s))"
      by blast
    show ?thesis
      using Clock_inv_resident [OF inv] by (simp add: ClockAlgorithm_resident_def st fr)
  qed
  from 1 2 3 4 5 6 show ?thesis by blast
qed

theorem C5_enough_frames_witness:
  "(\<exists>s'. OptimalAlgorithm roomy_example = Inr (3, s') \<and>
      pageLoadCount s' = (\<lambda>p. if p \<in> {''I0'', ''D1'', ''I2''} then Some 1 else None)) \<and>
   (\<exists>s'. ClockAlgorithm roomy_example = Inr (3, s') \<and>
      pageLoadCount s' = (\<lambda>p. if p \<in> {''I0'', ''D1'', ''I2''} then Some 1 else None)) \<and>
   (\<exists>st. OptimalAlgorithm_before roomy_example 0 = Inr st \<and>
      \<not> OptimalAlgorithm_evicts st (accesses roomy_example ! 0)) \<and>
   (\<exists>st. ClockAlgorithm_before roomy_example 0 = Inr st \<and>
      \<not> ClockAlgorithm_evicts st (accesses roomy_example ! 0)) \<and>
   (\<exists>st. OptimalAlgorithm_before roomy_example 1 = Inr st \<and>
      \<not> OptimalAlgorithm_evicts st (accesses roomy_example ! 1)) \<and>
   (\<exists>st. ClockAlgorithm_before roomy_example 1 = Inr st \<and>
      \<not> ClockAlgorithm_evicts st (accesses roomy_example ! 1)) \<and>
   (\<exists>st. OptimalAlgorithm_before roomy_example 2 = Inr st \<and>
      \<not> OptimalAlgorithm_evicts st (accesses roomy_example ! 2)) \<and>
   (\<exists>st. ClockAlgorithm_before roomy_example 2 = Inr st \<and>
      \<not> ClockAlgorithm_evicts st (accesses roomy_example ! 2)) \<and>
   (\<exists>st. OptimalAlgorithm_before roomy_example 3 = Inr st \<and>
      \<not> OptimalAlgorithm_evicts st (accesses roomy_example ! 3)) \<and>
   (\<exists>st. ClockAlgorithm_before roomy_example 3 = Inr st \<and>
      \<not> ClockAlgorithm_evicts st (accesses roomy_example ! 3)) \<and>
   OptimalAlgorithm_resident roomy_example 0 = Some {} \<and>
   ClockAlgorithm_resident roomy_example 0 = Some {} \<and>
   OptimalAlgorithm_resident roomy_example 1 = Some {''I0''} \<and>
   ClockAlgorithm_resident roomy_example 1 = Some {''I0''} \<and>
   OptimalAlgorithm_resident roomy_example 2 = Some {''I0'', ''D1''} \<and>
   ClockAlgorithm_resident roomy_example 2 = Some {''I0'', ''D1''} \<and>
   OptimalAlgorithm_resident roomy_example 3 = Some {''I0'', ''D1'', ''I2''} \<and>
   ClockAlgorithm_resident roomy_example 3 = Some {''I0'', ''D1'', ''I2''} \<and>
   OptimalAlgorithm_resident roomy_example 4 = Some {''I0'', ''D1'', ''I2''} \<and>
   ClockAlgorithm_resident roomy_example 4 = Some {''I0'', ''D1'', ''I2''}"
proof -
  have h1: "accesses roomy_example \<noteq> []"
    and h2: "int (card (set (trace roomy_example))) \<le> totalFrames roomy_example"
    by code_simp+
  have tr: "trace roomy_example = [''I0'', ''D1'', ''I2'', ''I0'']"
    by (simp add: trace_def roomy_example_def loaded_def NewSimulator_def valid_pageID_def)
  have t: "set (trace roomy_example) = {''I0'', ''D1'', ''I2''}" unfolding tr by auto
  have c: "card {''I0'', ''D1'', ''I2''} = 3" by simp
  have l: "length (accesses roomy_example) = 4" by code_simp
  note all = C5_enough_frames [OF h1 h2, unfolded t c l]
  from all have runs:
    "\<exists>s'. OptimalAlgorithm roomy_example = Inr (3, s') \<and>
      pageLoadCount s' = (\<lambda>p. if p \<in> {''I0'', ''D1'', ''I2''} then Some 1 else None)"
    "\<exists>s'. ClockAlgorithm roomy_example = Inr (3, s') \<and>
      pageLoadCount s' = (\<lambda>p. if p \<in> {''I0'', ''D1'', ''I2''} then Some 1 else None)"
    by simp_all
  from all have never: "(\<exists>st. OptimalAlgorithm_before roomy_example k = Inr st \<and>
      \<not> OptimalAlgorithm_evicts st (accesses roomy_example ! k)) \<and>
   (\<exists>st. ClockAlgorithm_before roomy_example k = Inr st \<and>
      \<not> ClockAlgorithm_evicts st (accesses roomy_example ! k))" if "k < 4" for k
    using that by blast
  from all have kept: "OptimalAlgorithm_resident roomy_example k = Some (set (take k (trace roomy_example))) \<and>
      ClockAlgorithm_resident roomy_example k = Some (set (take k (trace roomy_example)))"
    if "k \<le> 4" for k
    using that by blast
  have seen: "set (take 0 (trace roomy_example)) = {}"
    "set (take 1 (trace roomy_example)) = {''I0''}"
    "set (take 2 (trace roomy_example)) = {''I0'', ''D1''}"
    "set (take 3 (trace roomy_example)) = {''I0'', ''D1'', ''I2''}"
    "set (take 4 (trace roomy_example)) = {''I0'', ''D1'', ''I2''}"
    unfolding tr by auto
  show ?thesis
    using runs never [of 0] never [of 1] never [of 2] never [of 3]
      kept [of 0] kept [of 1] kept [of 2] kept [of 3] kept [of 4]
    unfolding seen by simp
qed

section \<open>Termination of the victim scan\<close>

text \<open>
  Claim C6. In a state with \<open>F\<close> frames, none of them empty, and the clock pointer at
  one of them, the victim loop returns without a panic after visiting \<open>d + 1\<close> frames
  for some \<open>d \<le> F\<close>, hence within \<open>2 * F\<close> visited frames, and the frame it stops at
  has its referenced bit cleared when the hand reaches it.
\<close>

theorem C6_scan_terminates:
  assumes "length (Clock.frames v) = F" and "0 \<le> clockPointer v" and "clockPointer v < int F"
    and "None \<notin> set (Clock.frames v)"
  shows "\<exists>d v'. d \<le> F \<and> Suc d \<le> 2 * F \<and>
     victim_loop_bounded (Suc d) (int F) q v = Some (Inr v') \<and>
     victim_loop_bounded (2 * F) (int F) q v = Some (Inr v') \<and>
     victim_loop (int F) q v = Inr v' \<and>
     \<not> is_referenced (sweep d (nat (clockPointer v)) (Clock.frames v) !
           ((nat (clockPointer v) + d) mod F))"
proof -
  let ?h = "nat (clockPointer v)"
  let ?fs = "Clock.frames v"
  have h: "clockPointer v = int ?h" "?h < F" using assms(2,3) by simp_all
  from victim_loop_sweep [OF assms(1) h assms(4) refl, of q]
  obtain d v' where d: "d \<le> F"
    and vic: "d < F \<longrightarrow> \<not> is_referenced (?fs ! ((?h + d) mod F))"
    and res: "victim_loop_bounded (Suc d) (int F) q v = Some (Inr v')"
    by blast
  have F0: "0 < F" using h(2) by simp
  have le: "Suc d \<le> 2 * F" using d F0 by simp
  have r: "(?h + d) mod F < length ?fs" and hl: "?h < length ?fs"
    using assms(1) F0 h(2) by simp_all
  have "\<not> is_referenced (sweep d ?h ?fs ! ((?h + d) mod F))"
  proof (cases "\<exists>e<d. (?h + d) mod F = (?h + e) mod length ?fs")
    case True
    then show ?thesis using sweep_nth [OF r hl, of d] by simp
  next
    case False
    have "d < F"
    proof (rule ccontr)
      assume "\<not> d < F"
      with d have "d = F" by simp
      with F0 assms(1) have "0 < d \<and> (?h + d) mod F = (?h + 0) mod length ?fs" by simp
      with False show False by blast
    qed
    with vic False show ?thesis using sweep_nth [OF r hl, of d] by simp
  qed
  with d le res victim_loop_bounded_mono [OF res le] victim_loop_bounded_sound [OF res]
  show ?thesis by blast
qed

theorem C6_scan_terminates_witness:
  "\<exists>d v'. d \<le> 2 \<and>
     victim_loop_bounded (Suc d) 2 ''I2'' small_example_clock_full = Some (Inr v') \<and>
     victim_loop_bounded 4 2 ''I2'' small_example_clock_full = Some (Inr v') \<and>
     victim_loop 2 ''I2'' small_example_clock_full = Inr v'"
proof -
  have h: "length (Clock.frames small_example_clock_full) = 2"
    "0 \<le> clockPointer small_example_clock_full"
    "clockPointer small_example_clock_full < int 2"
    "None \<notin> set (Clock.frames small_example_clock_full)"
    by (simp_all add: small_example_clock_full_def)
  from C6_scan_terminates [OF h, of "''I2''"] show ?thesis by auto
qed

section \<open>A fault of ClockAlgorithm\<close>

text \<open>
  Claim C3. On a fault of \<open>ClockAlgorithm\<close> (the page is not in \<open>pageToFrame\<close>), with
  \<open>F\<close> frames: if some frame is empty, the page is installed in the lowest-indexed
  empty frame, referenced and with load count 1, and the clock pointer stays. If no
  frame is empty and the pointer is at frame \<open>h\<close>, the hand passes \<open>d\<close> frames, all
  referenced, clearing their referenced bits, and replaces the frame it reaches then,
  \<open>(h + d) mod F\<close>: the first frame from \<open>h\<close> on that is not referenced, or frame
  \<open>h\<close> itself after a full round. The new page is installed there, referenced and
  with load count 1, the old page leaves \<open>pageToFrame\<close>, and the pointer ends one
  frame further. Either way the fault count and the page's load count go up by one.
\<close>

theorem C3_clock_fault:
  assumes "pageToFrame v (PageAccess.PageID a) = None"
    and "length (Clock.frames v) = F" and "totalFrames s = int F"
  shows "(None \<in> set (Clock.frames v) \<longrightarrow>
      (\<exists>e<F. Clock.frames v ! e = None \<and> (\<forall>l<e. Clock.frames v ! l \<noteq> None) \<and>
         ClockAlgorithm_access a (v, s) =
           Inr (v\<lparr>Clock.frames := (Clock.frames v)[e :=
                      Some \<lparr>PageID = PageAccess.PageID a, Referenced = True, LoadCount = 1\<rparr>],
                  pageToFrame := (pageToFrame v)(PageAccess.PageID a \<mapsto> int e),
                  Clock.pageFaults := Clock.pageFaults v + 1\<rparr>,
                s\<lparr>pageLoadCount := increment (pageLoadCount s) (PageAccess.PageID a)\<rparr>))) \<and>
    (None \<notin> set (Clock.frames v) \<and> clockPointer v = int h \<and> h < F \<longrightarrow>
      (\<exists>d\<le>F.
         (\<forall>e<d. is_referenced (Clock.frames v ! ((h + e) mod F))) \<and>
         (d < F \<longrightarrow> \<not> is_referenced (Clock.frames v ! ((h + d) mod F))) \<and>
         ClockAlgorithm_access a (v, s) =
           Inr (v\<lparr>Clock.frames := (sweep d h (Clock.frames v))[(h + d) mod F :=
                      Some \<lparr>PageID = PageAccess.PageID a, Referenced = True, LoadCount = 1\<rparr>],
                  pageToFrame := ((pageToFrame v)
                      (PageFrame.PageID (the (Clock.frames v ! ((h + d) mod F))) := None))
                      (PageAccess.PageID a \<mapsto> int ((h + d) mod F)),
                  clockPointer := int (((h + d) mod F + 1) mod F),
                  Clock.pageFaults := Clock.pageFaults v + 1\<rparr>,
                s\<lparr>pageLoadCount := increment (pageLoadCount s) (PageAccess.PageID a)\<rparr>)))"
proof (intro conjI impI)
  assume "None \<in> set (Clock.frames v)"
  with assms show "\<exists>e<F. Clock.frames v ! e = None \<and> (\<forall>l<e. Clock.frames v ! l \<noteq> None) \<and>
         ClockAlgorithm_access a (v, s) =
           Inr (v\<lparr>Clock.frames := (Clock.frames v)[e :=
                      Some \<lparr>PageID = PageAccess.PageID a, Referenced = True, LoadCount = 1\<rparr>],
                  pageToFrame := (pageToFrame v)(PageAccess.PageID a \<mapsto> int e),
                  Clock.pageFaults := Clock.pageFaults v + 1\<rparr>,
                s\<lparr>pageLoadCount := increment (pageLoadCount s) (PageAccess.PageID a)\<rparr>)"
    by (rule ClockAlgorithm_access_free)
next
  let ?q = "PageAccess.PageID a"
  let ?v1 = "v\<lparr>Clock.pageFaults := Clock.pageFaults v + 1\<rparr>"
  let ?s1 = "s\<lparr>pageLoadCount := increment (pageLoadCount s) ?q\<rparr>"
  assume "None \<notin> set (Clock.frames v) \<and> clockPointer v = int h \<and> h < F"
  then have full: "None \<notin> set (Clock.frames v)" and ptr: "clockPointer v = int h" and h: "h < F"
    by simp_all
  have l1: "length (Clock.frames ?v1) = F" and p1: "clockPointer ?v1 = int h"
    and n1: "None \<notin> set (Clock.frames ?v1)"
    using assms(2) ptr full by simp_all
  from victim_loop_sweep [OF l1 p1 h n1 refl, of ?q]
  obtain d where d: "d \<le> F"
    and vis: "\<forall>e<d. is_referenced (Clock.frames ?v1 ! ((h + e) mod F))"
    and vic: "d < F \<longrightarrow> \<not> is_referenced (Clock.frames ?v1 ! ((h + d) mod F))"
    and res: "victim_loop_bounded (Suc d) (int F) ?q ?v1 =
       Some (Inr (?v1\<lparr>Clock.frames := (sweep d h (Clock.frames ?v1))[(h + d) mod F :=
                      Some \<lparr>PageID = ?q, Referenced = True, LoadCount = 1\<rparr>],
                    pageToFrame := ((pageToFrame ?v1)
                        (PageFrame.PageID (the (Clock.frames ?v1 ! ((h + d) mod F))) := None))
                        (?q \<mapsto> int ((h + d) mod F)),
                    clockPointer := int (((h + d) mod F + 1) mod F)\<rparr>))"
    by blast
  have acc: "ClockAlgorithm_access a (v, s) =
      Inr (?v1\<lparr>Clock.frames := (sweep d h (Clock.frames ?v1))[(h + d) mod F :=
                      Some \<lparr>PageID = ?q, Referenced = True, LoadCount = 1\<rparr>],
                    pageToFrame := ((pageToFrame ?v1)
                        (PageFrame.PageID (the (Clock.frames ?v1 ! ((h + d) mod F))) := None))
                        (?q \<mapsto> int ((h + d) mod F)),
                    clockPointer := int (((h + d) mod F + 1) mod F)\<rparr>, ?s1)"
    unfolding ClockAlgorithm_access_full [OF assms(1,2,3) full]
      victim_loop_bounded_sound [OF res] by simp
  have c2: "\<forall>e<d. is_referenced (Clock.frames v ! ((h + e) mod F))" using vis by simp
  have c3: "d < F \<longrightarrow> \<not> is_referenced (Clock.frames v ! ((h + d) mod F))" using vic by simp
  have c4: "ClockAlgorithm_access a (v, s) =
           Inr (v\<lparr>Clock.frames := (sweep d h (Clock.frames v))[(h + d) mod F :=
                      Some \<lparr>PageID = ?q, Referenced = True, LoadCount = 1\<rparr>],
                  pageToFrame := ((pageToFrame v)
                      (PageFrame.PageID (the (Clock.frames v ! ((h + d) mod F))) := None))
                      (?q \<mapsto> int ((h + d) mod F)),
                  clockPointer := int (((h + d) mod F + 1) mod F),
                  Clock.pageFaults := Clock.pageFaults v + 1\<rparr>, ?s1)"
    unfolding acc by simp
  show "\<exists>d\<le>F.
         (\<forall>e<d. is_referenced (Clock.frames v ! ((h + e) mod F))) \<and>
         (d < F \<longrightarrow> \<not> is_referenced (Clock.frames v ! ((h + d) mod F))) \<and>
         ClockAlgorithm_access a (v, s) =
           Inr (v\<lparr>Clock.frames := (sweep d h (Clock.frames v))[(h + d) mod F :=
                      Some \<lparr>PageID = ?q, Referenced = True, LoadCount = 1\<rparr>],
                  pageToFrame := ((pageToFrame v)
                      (PageFrame.PageID (the (Clock.frames v ! ((h + d) mod F))) := None))
                      (?q \<mapsto> int ((h + d) mod F)),
                  clockPointer := int (((h + d) mod F + 1) mod F),
                  Clock.pageFaults := Clock.pageFaults v + 1\<rparr>, ?s1)"
    by (intro exI [of _ d] conjI) (fact d c2 c3 c4)+
qed

theorem C3_clock_fault_witness:
  "(\<exists>e<2. Clock.frames small_example_clock_free ! e = None \<and> (\<forall>l<e. Clock.frames small_example_clock_free ! l \<noteq> None) \<and>
         ClockAlgorithm_access (accesses small_example ! 1) (small_example_clock_free, small_example) =
           Inr (small_example_clock_free\<lparr>Clock.frames := (Clock.frames small_example_clock_free)[e :=
                      Some \<lparr>PageID = PageAccess.PageID (accesses small_example ! 1), Referenced = True, LoadCount = 1\<rparr>],
                  pageToFrame := (pageToFrame small_example_clock_free)(PageAccess.PageID (accesses small_example ! 1) \<mapsto> int e),
                  Clock.pageFaults := Clock.pageFaults small_example_clock_free + 1\<rparr>,
                small_example\<lparr>pageLoadCount := increment (pageLoadCount small_example) (PageAccess.PageID (accesses small_example ! 1))\<rparr>)) \<and>
   (\<exists>d\<le>2.
         (\<forall>e<d. is_referenced (Clock.frames small_example_clock_full ! ((0 + e) mod 2))) \<and>
         (d < 2 \<longrightarrow> \<not> is_referenced (Clock.frames small_example_clock_full ! ((0 + d) mod 2))) \<and>
         ClockAlgorithm_access (accesses small_example ! 2) (small_example_clock_full, small_example) =
           Inr (small_example_clock_full\<lparr>Clock.frames := (sweep d 0 (Clock.frames small_example_clock_full))[(0 + d) mod 2 :=
                      Some \<lparr>PageID = PageAccess.PageID (accesses small_example ! 2), Referenced = True, LoadCount = 1\<rparr>],
                  pageToFrame := ((pageToFrame small_example_clock_full)
                      (PageFrame.PageID (the (Clock.frames small_example_clock_full ! ((0 + d) mod 2))) := None))
                      (PageAccess.PageID (accesses small_example ! 2) \<mapsto> int ((0 + d) mod 2)),
                  clockPointer := int (((0 + d) mod 2 + 1) mod 2),
                  Clock.pageFaults := Clock.pageFaults small_example_clock_full + 1\<rparr>,
                small_example\<lparr>pageLoadCount := increment (pageLoadCount small_example) (PageAccess.PageID (accesses small_example ! 2))\<rparr>))"
proof -
  have a1: "pageToFrame small_example_clock_free (PageAccess.PageID (accesses small_example ! 1)) = None"
    and a2: "length (Clock.frames small_example_clock_free) = 2"
    and a3: "totalFrames small_example = int 2"
    and a4: "None \<in> set (Clock.frames small_example_clock_free)"
    by code_simp+
  have b1: "pageToFrame small_example_clock_full (PageAccess.PageID (accesses small_example ! 2)) = None"
    and b2: "length (Clock.frames small_example_clock_full) = 2"
    and b4: "None \<notin> set (Clock.frames small_example_clock_full) \<and>
       clockPointer small_example_clock_full = int 0 \<and> (0::nat) < 2"
    by code_simp+
  from C3_clock_fault [OF a1 a2 a3, of 0] a4
  have 1: "(\<exists>e<2. Clock.frames small_example_clock_free ! e = None \<and> (\<forall>l<e. Clock.frames small_example_clock_free ! l \<noteq> None) \<and>
         ClockAlgorithm_access (accesses small_example ! 1) (small_example_clock_free, small_example) =
           Inr (small_example_clock_free\<lparr>Clock.frames := (Clock.frames small_example_clock_free)[e :=
                      Some \<lparr>PageID = PageAccess.PageID (accesses small_example ! 1), Referenced = True, LoadCount = 1\<rparr>],
                  pageToFrame := (pageToFrame small_example_clock_free)(PageAccess.PageID (accesses small_example ! 1) \<mapsto> int e),
                  Clock.pageFaults := Clock.pageFaults small_example_clock_free + 1\<rparr>,
                small_example\<lparr>pageLoadCount := increment (pageLoadCount small_example) (PageAccess.PageID (accesses small_example ! 1))\<rparr>))" by blast
  from C3_clock_fault [OF b1 b2 a3, of 0] b4
  have 2: "(\<exists>d\<le>2.
         (\<forall>e<d. is_referenced (Clock.frames small_example_clock_full ! ((0 + e) mod 2))) \<and>
         (d < 2 \<longrightarrow> \<not> is_referenced (Clock.frames small_example_clock_full ! ((0 + d) mod 2))) \<and>
         ClockAlgorithm_access (accesses small_example ! 2) (small_example_clock_full, small_example) =
           Inr (small_example_clock_full\<lparr>Clock.frames := (sweep d 0 (Clock.frames small_example_clock_full))[(0 + d) mod 2 :=
                      Some \<lparr>PageID = PageAccess.PageID (accesses small_example ! 2), Referenced = True, LoadCount = 1\<rparr>],
                  pageToFrame := ((pageToFrame small_example_clock_full)
                      (PageFrame.PageID (the (Clock.frames small_example_clock_full ! ((0 + d) mod 2))) := None))
                      (PageAccess.PageID (accesses small_example ! 2) \<mapsto> int ((0 + d) mod 2)),
                  clockPointer := int (((0 + d) mod 2 + 1) mod 2),
                  Clock.pageFaults := Clock.pageFaults small_example_clock_full + 1\<rparr>,
                small_example\<lparr>pageLoadCount := increment (pageLoadCount small_example) (PageAccess.PageID (accesses small_example ! 2))\<rparr>))" by blast
  from 1 2 show ?thesis by (rule conjI)
qed

end
